theory Spec2Isabelle
  imports Main "HOL-Library.Sublist"
begin

section \<open>PR-Analyser: the analysis core of \<^verbatim>\<open>src/app/api/analyze/route.ts\<close>\<close>

text \<open>
  The development embeds the functions \<^verbatim>\<open>analyze\<close>, \<^verbatim>\<open>parsePrUrl\<close> and
  \<^verbatim>\<open>POST\<close> of \<^verbatim>\<open>route.ts\<close>.

  Conventions of the embedding.
  \<^item> A JavaScript string is a \<^typ>\<open>string\<close>: a list of code units, each below 256.
    Every character that the source compares a code unit with is ASCII.
  \<^item> A numeric field is an \<^typ>\<open>int\<close>; a field that is missing (or \<^verbatim>\<open>undefined\<close>,
    \<^verbatim>\<open>null\<close>) is \<^term>\<open>None\<close>. Sums are exact integers (no rounding of large values).
  \<^item> A thrown exception is a value \<^term>\<open>Inl e\<close> of a sum type.
  \<^item> A \<^verbatim>\<open>Map\<close> is an association list in insertion order.
  \<^item> A regular expression is a value of the datatype \<open>regex\<close>, interpreted by a
    backtracking matcher that lists the match results in priority order.
\<close>

subsection \<open>JavaScript values and string primitives\<close>

datatype js_error = TypeError

text \<open>\<^verbatim>\<open>x || 0\<close> on a number that may be missing: \<^verbatim>\<open>undefined\<close> and \<^verbatim>\<open>0\<close> are falsy.\<close>

fun or_zero :: "int option \<Rightarrow> int" where
  "or_zero None = 0"
| "or_zero (Some n) = (if n = 0 then 0 else n)"

text \<open>\<^verbatim>\<open>s || d\<close> on strings: the empty string is falsy.\<close>

definition or_string :: "string \<Rightarrow> string \<Rightarrow> string" where
  "or_string s d = (if s = [] then d else s)"

text \<open>\<^verbatim>\<open>String.prototype.split\<close> with a one-character separator.\<close>

fun split :: "char \<Rightarrow> string \<Rightarrow> string list" where
  "split sep [] = [[]]"
| "split sep (c # cs) =
     (if c = sep then [] # split sep cs
      else (case split sep cs of
              [] \<Rightarrow> [[c]]
            | w # ws \<Rightarrow> (c # w) # ws))"

text \<open>\<^verbatim>\<open>Array.prototype.slice(0, n)\<close> is \<^term>\<open>take n\<close>.\<close>

definition slice0 :: "nat \<Rightarrow> 'a list \<Rightarrow> 'a list" where
  "slice0 n xs = take n xs"

text \<open>\<^verbatim>\<open>Array.prototype.join\<close> on an array of strings.\<close>

fun join :: "string \<Rightarrow> string list \<Rightarrow> string" where
  "join sep [] = []"
| "join sep [x] = x"
| "join sep (x # y # ys) = x @ sep @ join sep (y # ys)"

text \<open>
  An element that is \<^verbatim>\<open>undefined\<close> is joined as the empty string, whereas
  \<^verbatim>\<open>RegExp.prototype.test\<close> converts its argument with \<^verbatim>\<open>ToString\<close>.
\<close>

fun join_elem :: "string option \<Rightarrow> string" where
  "join_elem None = []"
| "join_elem (Some s) = s"

fun to_string :: "string option \<Rightarrow> string" where
  "to_string None = ''undefined''"
| "to_string (Some s) = s"

subsection \<open>Regular expressions\<close>

text \<open>
  Every regular expression of the source carries the flag \<^verbatim>\<open>i\<close> and none carries
  \<^verbatim>\<open>g\<close>, \<^verbatim>\<open>m\<close> or \<^verbatim>\<open>u\<close>. Two code units are compared after \<^verbatim>\<open>Canonicalize\<close>, which
  upper-cases and never maps a code unit outside ASCII to one inside. All pattern
  characters of the source are ASCII, so folding the letters a-z is all that matters.
\<close>

definition canonicalize :: "char \<Rightarrow> char" where
  "canonicalize c =
     (if 97 \<le> (of_char c :: nat) \<and> (of_char c :: nat) \<le> 122
      then char_of ((of_char c :: nat) - 32) else c)"

text \<open>The word characters of \<^verbatim>\<open>\b\<close>: letters, digits and the underscore.\<close>

definition is_word_char :: "char \<Rightarrow> bool" where
  "is_word_char c =
     (let n = (of_char c :: nat)
      in (97 \<le> n \<and> n \<le> 122) \<or> (65 \<le> n \<and> n \<le> 90) \<or> (48 \<le> n \<and> n \<le> 57) \<or> n = 95)"

definition is_digit :: "char \<Rightarrow> bool" where
  "is_digit c = (48 \<le> (of_char c :: nat) \<and> (of_char c :: nat) \<le> 57)"

datatype regex =
    Eps
  | Chr char
  | NotChr char
  | Digit
  | Bol
  | Eol
  | WordB
  | Seq regex regex
  | Alt regex regex
  | Opt regex
  | Plus regex
  | Group nat regex

text \<open>
  A match state: the code unit before the current position (\<^term>\<open>None\<close> at the start
  of the input), the input from the current position on, and the captures made so far.
\<close>

type_synonym mstate = "char option \<times> string \<times> (nat \<times> string) list"

fun word_before :: "char option \<Rightarrow> bool" where
  "word_before None = False"
| "word_before (Some c) = is_word_char c"

fun word_after :: "string \<Rightarrow> bool" where
  "word_after [] = False"
| "word_after (c # cs) = is_word_char c"

text \<open>
  Greedy iteration after the first round of \<^verbatim>\<open>r+\<close>: try one more round that
  consumes input, then stop. The count bounds the rounds; no more rounds can consume
  input than there are code units left.
\<close>

fun star_iter :: "(mstate \<Rightarrow> mstate list) \<Rightarrow> nat \<Rightarrow> mstate \<Rightarrow> mstate list" where
  "star_iter step 0 x = [x]"
| "star_iter step (Suc n) x =
     concat (map (\<lambda>y. if length (fst (snd y)) = length (fst (snd x)) then []
                       else star_iter step n y) (step x)) @ [x]"

fun rmatch :: "regex \<Rightarrow> mstate \<Rightarrow> mstate list" where
  "rmatch Eps x = [x]"
| "rmatch (Chr c) (p, [], cs) = []"
| "rmatch (Chr c) (p, d # ds, cs) =
     (if canonicalize d = canonicalize c then [(Some d, ds, cs)] else [])"
| "rmatch (NotChr c) (p, [], cs) = []"
| "rmatch (NotChr c) (p, d # ds, cs) =
     (if canonicalize d \<noteq> canonicalize c then [(Some d, ds, cs)] else [])"
| "rmatch Digit (p, [], cs) = []"
| "rmatch Digit (p, d # ds, cs) = (if is_digit d then [(Some d, ds, cs)] else [])"
| "rmatch Bol (p, r, cs) = (if p = None then [(p, r, cs)] else [])"
| "rmatch Eol (p, r, cs) = (if r = [] then [(p, r, cs)] else [])"
| "rmatch WordB (p, r, cs) = (if word_before p \<noteq> word_after r then [(p, r, cs)] else [])"
| "rmatch (Seq a b) x = concat (map (rmatch b) (rmatch a x))"
| "rmatch (Alt a b) x = rmatch a x @ rmatch b x"
| "rmatch (Opt a) x = rmatch a x @ [x]"
| "rmatch (Plus a) x =
     concat (map (star_iter (rmatch a) (length (fst (snd x)))) (rmatch a x))"
| "rmatch (Group n a) (p, r, cs) =
     map (\<lambda>y. (fst y, fst (snd y), (n, take (length r - length (fst (snd y))) r) # snd (snd y)))
       (rmatch a (p, r, cs))"

text \<open>
  \<^verbatim>\<open>re.test(s)\<close>: is there a match starting at some index of \<open>s\<close>? The start index
  moves from left to right.
\<close>

fun test_from :: "regex \<Rightarrow> char option \<Rightarrow> string \<Rightarrow> bool" where
  "test_from r p [] = (rmatch r (p, [], []) \<noteq> [])"
| "test_from r p (c # cs) =
     (if rmatch r (p, c # cs, []) \<noteq> [] then True else test_from r (Some c) cs)"

definition re_test :: "regex \<Rightarrow> string \<Rightarrow> bool" where
  "re_test r s = test_from r None s"

text \<open>
  \<^verbatim>\<open>s.match(re)\<close>: the captures of the first match in priority order at the leftmost
  start index that has one; \<^term>\<open>None\<close> is \<^verbatim>\<open>null\<close>.
\<close>

fun exec_from :: "regex \<Rightarrow> char option \<Rightarrow> string \<Rightarrow> (nat \<times> string) list option" where
  "exec_from r p [] =
     (case rmatch r (p, [], []) of [] \<Rightarrow> None | x # xs \<Rightarrow> Some (snd (snd x)))"
| "exec_from r p (c # cs) =
     (case rmatch r (p, c # cs, []) of
        [] \<Rightarrow> exec_from r (Some c) cs
      | x # xs \<Rightarrow> Some (snd (snd x)))"

definition re_match :: "regex \<Rightarrow> string \<Rightarrow> (nat \<times> string) list option" where
  "re_match r s = exec_from r None s"

text \<open>A literal word, and an alternation of several branches.\<close>

fun lit :: "string \<Rightarrow> regex" where
  "lit [] = Eps"
| "lit [c] = Chr c"
| "lit (c # cs) = Seq (Chr c) (lit cs)"

fun alts :: "regex list \<Rightarrow> regex" where
  "alts [] = Eps"
| "alts [r] = r"
| "alts (r # rs) = Alt r (alts rs)"

subsection \<open>Arrays and maps\<close>

text \<open>
  \<^verbatim>\<open>Array.prototype.sort(cmp)\<close> is a stable sort. With a consistent comparator its
  result is the one stably sorted permutation, which insertion from the right computes:
  an element goes in front of the first element it does not compare greater than.
\<close>

fun insert_by :: "('a \<Rightarrow> 'a \<Rightarrow> int) \<Rightarrow> 'a \<Rightarrow> 'a list \<Rightarrow> 'a list" where
  "insert_by cmp x [] = [x]"
| "insert_by cmp x (y # ys) =
     (if cmp x y \<le> 0 then x # y # ys else y # insert_by cmp x ys)"

definition sort_by :: "('a \<Rightarrow> 'a \<Rightarrow> int) \<Rightarrow> 'a list \<Rightarrow> 'a list" where
  "sort_by cmp xs = foldr (insert_by cmp) xs []"

text \<open>
  A \<^verbatim>\<open>Map<string, number>\<close> iterates in insertion order; \<^verbatim>\<open>set\<close> on a key that is
  present keeps its place.
\<close>

type_synonym dir_map = "(string \<times> int) list"

fun map_get :: "dir_map \<Rightarrow> string \<Rightarrow> int option" where
  "map_get [] k = None"
| "map_get ((k', v) # m) k = (if k' = k then Some v else map_get m k)"

fun map_set :: "dir_map \<Rightarrow> string \<Rightarrow> int \<Rightarrow> dir_map" where
  "map_set [] k v = [(k, v)]"
| "map_set ((k', v') # m) k v =
     (if k' = k then (k, v) # m else (k', v') # map_set m k v)"

subsection \<open>The data model\<close>

text \<open>An element of the input array \<^verbatim>\<open>files: any[]\<close>: any field may be missing.\<close>

record file_change =
  filename :: "string option"
  additions :: "int option"
  deletions :: "int option"
  changes :: "int option"
  status :: "string option"

text \<open>An element of \<^verbatim>\<open>fileStats\<close>: the numeric fields have been defaulted.\<close>

record file_stat =
  st_filename :: "string option"
  st_additions :: int
  st_deletions :: int
  st_changes :: int
  st_status :: "string option"

record metrics_rec =
  totalFiles :: int
  m_additions :: int
  m_deletions :: int
  churn :: int

record risk_rec =
  level :: string
  score :: int
  reasons :: "string list"

record hotspot =
  dir :: string
  h_churn :: int

record report =
  metrics :: metrics_rec
  risk :: risk_rec
  hotspots :: "hotspot list"
  biggestFiles :: "file_stat list"

subsection \<open>\<^verbatim>\<open>analyze\<close>\<close>

text \<open>Lines 39-49: the callback of \<^verbatim>\<open>files.map\<close>, which also adds to the two counters.\<close>

definition stat_of :: "file_change \<Rightarrow> file_stat" where
  "stat_of f =
     \<lparr>st_filename = filename f,
      st_additions = or_zero (additions f),
      st_deletions = or_zero (deletions f),
      st_changes = or_zero (changes f),
      st_status = status f\<rparr>"

fun map_stats :: "file_change list \<Rightarrow> int \<Rightarrow> int \<Rightarrow> file_stat list \<times> int \<times> int" where
  "map_stats [] a d = ([], a, d)"
| "map_stats (f # fs) a d =
     (case map_stats fs (a + or_zero (additions f)) (d + or_zero (deletions f)) of
        (ss, a', d') \<Rightarrow> (stat_of f # ss, a', d'))"

text \<open>Line 59: the directory key of a file name.\<close>

definition dir_key :: "string \<Rightarrow> string" where
  "dir_key fn = or_string (join ''/'' (slice0 2 (split CHR ''/'' fn))) ''(root)''"

text \<open>
  Lines 58-61: the loop that fills \<^verbatim>\<open>dirMap\<close>. Calling \<^verbatim>\<open>split\<close> on a file name that
  is \<^verbatim>\<open>undefined\<close> throws a \<^verbatim>\<open>TypeError\<close>.
\<close>

fun dir_loop :: "file_stat list \<Rightarrow> dir_map \<Rightarrow> js_error + dir_map" where
  "dir_loop [] m = Inr m"
| "dir_loop (f # fs) m =
     (case st_filename f of
        None \<Rightarrow> Inl TypeError
      | Some fn \<Rightarrow>
          (let d = dir_key fn
           in dir_loop fs (map_set m d (or_zero (map_get m d) + st_changes f))))"

text \<open>Lines 82-87: the table of file-name patterns.\<close>

record pattern =
  re :: regex
  pts :: int
  reason :: string

definition re_auth :: regex where
  "re_auth = Group 1 (alts (map lit
     [''auth'', ''security'', ''oauth'', ''jwt'', ''password'', ''login'']))"

definition re_db :: regex where
  "re_db = Group 1 (alts (map lit
     [''migration'', ''migrations'', ''schema'', ''db'', ''database'']))"

definition re_ci :: regex where
  "re_ci = Group 1 (alts (map lit
     [''github/workflows'', ''ci'', ''terraform'', ''helm'', ''k8s'', ''kubernetes'']))"

definition re_lock :: regex where
  "re_lock = Group 1 (alts (map lit
     [''package-lock.json'', ''yarn.lock'', ''pnpm-lock.yaml'', ''requirements.txt'',
      ''poetry.lock'']))"

definition patterns :: "pattern list" where
  "patterns =
     [\<lparr>re = re_auth, pts = 3, reason = ''Touches auth/security related code''\<rparr>,
      \<lparr>re = re_db, pts = 3, reason = ''Touches database/migrations/schema''\<rparr>,
      \<lparr>re = re_ci, pts = 2, reason = ''Touches CI/infra config''\<rparr>,
      \<lparr>re = re_lock, pts = 2, reason = ''Touches dependency lockfiles''\<rparr>]"

text \<open>Lines 89-94: the loop over the table.\<close>

fun pattern_loop :: "pattern list \<Rightarrow> string \<Rightarrow> int \<times> string list \<Rightarrow> int \<times> string list" where
  "pattern_loop [] joined sr = sr"
| "pattern_loop (p # ps) joined sr =
     pattern_loop ps joined
       (if re_test (re p) joined then (fst sr + pts p, snd sr @ [reason p]) else sr)"

text \<open>Lines 96-97: the two regular expressions of the code-without-tests check.\<close>

definition re_code :: regex where
  "re_code = Seq (Chr CHR ''.'') (Seq (Group 1 (alts (map lit
     [''ts'', ''tsx'', ''js'', ''jsx'', ''py'', ''java'', ''go'', ''cs'', ''rb'', ''php''])))
     Eol)"

definition re_tests :: regex where
  "re_tests =
     Alt (Seq (Group 1 (Alt Bol (Chr CHR ''/'')))
           (Seq (Group 2 (alts (map lit [''test'', ''tests'', ''__tests__'']))) WordB))
      (Alt (lit ''.spec.'') (lit ''.test.''))"

definition hasCodeTouched :: "file_stat list \<Rightarrow> bool" where
  "hasCodeTouched fileStats = list_ex (\<lambda>f. re_test re_code (to_string (st_filename f))) fileStats"

definition hasTestsTouched :: "file_stat list \<Rightarrow> bool" where
  "hasTestsTouched fileStats = list_ex (\<lambda>f. re_test re_tests (to_string (st_filename f))) fileStats"

text \<open>Lines 68-78: the two size checks.\<close>

definition size_checks :: "int \<Rightarrow> int \<Rightarrow> int \<times> string list" where
  "size_checks nfiles ch =
     (let sr = (0, []);
          sr = (if nfiles \<ge> 25 then (fst sr + 2, snd sr @ [''Large PR: many files changed''])
                else sr);
          sr = (if ch \<ge> 800
                then (fst sr + 2, snd sr @ [''Large PR: high churn (additions + deletions)''])
                else sr)
      in sr)"

text \<open>Lines 96-101: the code-without-tests check.\<close>

definition tests_check :: "file_stat list \<Rightarrow> int \<times> string list \<Rightarrow> int \<times> string list" where
  "tests_check fileStats sr =
     (if hasCodeTouched fileStats \<and> \<not> hasTestsTouched fileStats
      then (fst sr + 2, snd sr @ [''Code changed but tests were not updated''])
      else sr)"

text \<open>Line 103.\<close>

definition level_of :: "int \<Rightarrow> string" where
  "level_of sc = (if sc \<ge> 6 then ''high'' else if sc \<ge> 3 then ''medium'' else ''low'')"

text \<open>Lines 68-103: the risk section of the body.\<close>

definition risk_of :: "int \<Rightarrow> int \<Rightarrow> file_stat list \<Rightarrow> risk_rec" where
  "risk_of nfiles ch fileStats =
     (let sr = size_checks nfiles ch;
          filenamesJoined = join ''\<newline>'' (map (\<lambda>f. join_elem (st_filename f)) fileStats);
          sr = pattern_loop patterns filenamesJoined sr;
          sr = tests_check fileStats sr
      in \<lparr>level = level_of (fst sr), score = fst sr, reasons = snd sr\<rparr>)"

definition analyze :: "file_change list \<Rightarrow> js_error + report" where
  "analyze files =
     (let nfiles = int (length files);
          (fileStats, adds, dels) = map_stats files 0 0;
          ch = adds + dels;
          biggest = slice0 8 (sort_by (\<lambda>a b. st_changes b - st_changes a) fileStats)
      in case dir_loop fileStats [] of
           Inl e \<Rightarrow> Inl e
         | Inr dirMap \<Rightarrow>
             (let hs = map (\<lambda>(d, c). \<lparr>dir = d, h_churn = c\<rparr>)
                         (slice0 8 (sort_by (\<lambda>a b. snd b - snd a) dirMap))
              in Inr \<lparr>metrics = \<lparr>totalFiles = nfiles, m_additions = adds,
                                  m_deletions = dels, churn = ch\<rparr>,
                      risk = risk_of nfiles ch fileStats,
                      hotspots = hs,
                      biggestFiles = biggest\<rparr>))"

subsection \<open>\<^verbatim>\<open>parsePrUrl\<close>\<close>

text \<open>\<^verbatim>\<open>String.prototype.trim\<close> removes white space and line terminators at both ends.\<close>

definition is_space :: "char \<Rightarrow> bool" where
  "is_space c = ((of_char c :: nat) \<in> {9, 10, 11, 12, 13, 32, 160})"

definition trim :: "string \<Rightarrow> string" where
  "trim s = rev (dropWhile is_space (rev (dropWhile is_space s)))"

text \<open>\<^verbatim>\<open>Number\<close> on a string of decimal digits.\<close>

definition to_number :: "string \<Rightarrow> nat" where
  "to_number ds = foldl (\<lambda>n d. 10 * n + ((of_char d :: nat) - 48)) 0 ds"

text \<open>Line 7: the pattern of a pull-request URL.\<close>

definition re_pr_url :: regex where
  "re_pr_url =
     Seq (lit ''http'') (Seq (Opt (Chr CHR ''s'')) (Seq (lit ''://'')
       (Seq (Opt (Group 1 (lit ''www.''))) (Seq (lit ''github.com/'')
          (Seq (Group 2 (Plus (NotChr CHR ''/''))) (Seq (Chr CHR ''/'')
             (Seq (Group 3 (Plus (NotChr CHR ''/''))) (Seq (lit ''/pull/'')
                (Group 4 (Plus Digit))))))))))"

text \<open>
  The fields are the capture groups \<^verbatim>\<open>m[2]\<close>, \<^verbatim>\<open>m[3]\<close> and \<^verbatim>\<open>Number(m[4])\<close>; a
  group that took no part in the match is \<^term>\<open>None\<close>.
\<close>

record parsed_url =
  owner :: "string option"
  repo :: "string option"
  pull_number :: "nat option"

definition parsePrUrl :: "string option \<Rightarrow> parsed_url option" where
  "parsePrUrl input =
     (let url = trim (case input of None \<Rightarrow> [] | Some s \<Rightarrow> or_string s [])
      in case re_match re_pr_url url of
           None \<Rightarrow> None
         | Some m \<Rightarrow>
             Some \<lparr>owner = map_of m 2, repo = map_of m 3,
                   pull_number = map_option to_number (map_of m 4)\<rparr>)"

subsection \<open>\<^verbatim>\<open>listAllFiles\<close> and \<^verbatim>\<open>POST\<close>\<close>

text \<open>
  The GitHub REST API is a parameter: two functions that answer a request with the data
  or with the message of the error that \<^verbatim>\<open>octokit.request\<close> throws. Every request made
  is recorded, in order, in a log that the handler returns beside its response.
\<close>

record pr_info =
  title :: "string option"
  html_url :: "string option"
  user_login :: "string option"
  base_repo_full_name :: "string option"

datatype api_call =
    GetPull string parsed_url
  | GetPullFiles string parsed_url nat nat

record github =
  pulls_get :: "string \<Rightarrow> parsed_url \<Rightarrow> string + pr_info"
  pulls_files :: "string \<Rightarrow> parsed_url \<Rightarrow> nat \<Rightarrow> nat \<Rightarrow> string + file_change list"

text \<open>
  Lines 18-29: the loop of \<^verbatim>\<open>listAllFiles\<close>. It ends at the first page shorter than
  \<^verbatim>\<open>per_page\<close>; against an API that keeps returning full pages it does not end.
\<close>

partial_function (option) listAllFiles_loop ::
  "github \<Rightarrow> string \<Rightarrow> parsed_url \<Rightarrow> nat \<Rightarrow> nat \<Rightarrow> file_change list \<Rightarrow> api_call list
     \<Rightarrow> ((string + file_change list) \<times> api_call list) option" where
  "listAllFiles_loop gh tok target per_page page all log =
     (case pulls_files gh tok target per_page page of
        Inl msg \<Rightarrow> Some (Inl msg, log @ [GetPullFiles tok target per_page page])
      | Inr data \<Rightarrow>
          (if length data < per_page
           then Some (Inr (all @ data), log @ [GetPullFiles tok target per_page page])
           else listAllFiles_loop gh tok target per_page (page + 1) (all @ data)
                  (log @ [GetPullFiles tok target per_page page])))"

definition listAllFiles ::
  "github \<Rightarrow> string \<Rightarrow> parsed_url \<Rightarrow> api_call list
     \<Rightarrow> ((string + file_change list) \<times> api_call list) option" where
  "listAllFiles gh tok target log = listAllFiles_loop gh tok target 100 1 [] log"

text \<open>
  The request: \<^verbatim>\<open>req.json()\<close> either fails with a message or yields an object whose
  field \<^verbatim>\<open>prUrl\<close> is a string or is missing.
\<close>

datatype request = Malformed string | Body "string option"

text \<open>
  The text of an error response: a literal text, or the message that the JavaScript
  engine gives an error it raised itself.
\<close>

datatype error_text = Text string | MessageOf js_error

record pr_summary =
  pr_title :: "string option"
  pr_url :: "string option"
  pr_author :: "string option"
  pr_repo :: "string option"

datatype body = ErrorBody error_text | Success pr_summary report string

record response =
  http_status :: nat
  body :: body

text \<open>Line 180: the \<^verbatim>\<open>catch\<close> clause.\<close>

definition caught :: "string \<Rightarrow> response" where
  "caught msg = \<lparr>http_status = 500, body = ErrorBody (Text (or_string msg ''Unknown error''))\<rparr>"

definition caught_error :: "js_error \<Rightarrow> response" where
  "caught_error e = \<lparr>http_status = 500, body = ErrorBody (MessageOf e)\<rparr>"

text \<open>
  Lines 143-182. The environment variable \<^verbatim>\<open>GITHUB_TOKEN\<close> is \<open>token\<close>. The function
  \<^verbatim>\<open>toMarkdown\<close>, which only formats the report, is the parameter \<open>render\<close>. The result
  is \<^term>\<open>None\<close> when \<^verbatim>\<open>listAllFiles\<close> does not return.
\<close>

definition POST ::
  "github \<Rightarrow> (pr_info \<Rightarrow> report \<Rightarrow> string) \<Rightarrow> string option \<Rightarrow> request
     \<Rightarrow> (response \<times> api_call list) option" where
  "POST gh render token req =
     (case req of
        Malformed msg \<Rightarrow> Some (caught msg, [])
      | Body prUrl \<Rightarrow>
          (case parsePrUrl prUrl of
             None \<Rightarrow>
               Some (\<lparr>http_status = 400, body = ErrorBody (Text ''Invalid GitHub PR URL'')\<rparr>, [])
           | Some parsed \<Rightarrow>
               (if token = None \<or> token = Some []
                then Some (\<lparr>http_status = 500,
                            body = ErrorBody (Text ''Missing GITHUB_TOKEN in .env.local'')\<rparr>, [])
                else
                  (let tok = the token
                   in case pulls_get gh tok parsed of
                        Inl msg \<Rightarrow> Some (caught msg, [GetPull tok parsed])
                      | Inr pr \<Rightarrow>
                          (case listAllFiles gh tok parsed [GetPull tok parsed] of
                             None \<Rightarrow> None
                           | Some (Inl msg, log) \<Rightarrow> Some (caught msg, log)
                           | Some (Inr files, log) \<Rightarrow>
                               (case analyze files of
                                  Inl e \<Rightarrow> Some (caught_error e, log)
                                | Inr rep \<Rightarrow>
                                    Some (\<lparr>http_status = 200,
                                           body = Success
                                             \<lparr>pr_title = title pr, pr_url = html_url pr,
                                              pr_author = user_login pr,
                                              pr_repo = base_repo_full_name pr\<rparr>
                                             rep (render pr rep)\<rparr>, log)))))))"

subsection \<open>Notions used to state the properties\<close>

text \<open>The file names of an input in which every record has one.\<close>

definition file_names :: "file_change list \<Rightarrow> string list" where
  "file_names files = map (\<lambda>f. the (filename f)) files"

text \<open>The score, the reasons and the level of the report, when there is one.\<close>

definition risk_score :: "file_change list \<Rightarrow> int option" where
  "risk_score files = (case analyze files of Inl e \<Rightarrow> None | Inr r \<Rightarrow> Some (score (risk r)))"

definition risk_reasons :: "file_change list \<Rightarrow> string list option" where
  "risk_reasons files = (case analyze files of Inl e \<Rightarrow> None | Inr r \<Rightarrow> Some (reasons (risk r)))"

definition risk_level :: "file_change list \<Rightarrow> string option" where
  "risk_level files = (case analyze files of Inl e \<Rightarrow> None | Inr r \<Rightarrow> Some (level (risk r)))"

definition hotspot_list :: "file_change list \<Rightarrow> hotspot list option" where
  "hotspot_list files = (case analyze files of Inl e \<Rightarrow> None | Inr r \<Rightarrow> Some (hotspots r))"

text \<open>Letters, the only code units that \<^const>\<open>canonicalize\<close> may change.\<close>

definition is_letter :: "char \<Rightarrow> bool" where
  "is_letter c = ((65 \<le> (of_char c :: nat) \<and> (of_char c :: nat) \<le> 90)
                 \<or> (97 \<le> (of_char c :: nat) \<and> (of_char c :: nat) \<le> 122))"

text \<open>A word occurs in a string, letter case ignored.\<close>

definition contains_ci :: "string \<Rightarrow> string \<Rightarrow> bool" where
  "contains_ci w s = sublist (map canonicalize w) (map canonicalize s)"

text \<open>The regular expression \<^verbatim>\<open>(w1|w2|...)\<close> of a list of words.\<close>

definition word_re :: "nat \<Rightarrow> string list \<Rightarrow> regex" where
  "word_re n ws = Group n (alts (map lit ws))"

text \<open>The words of the four patterns of the table, row by row.\<close>

definition pattern_words :: "string list list" where
  "pattern_words =
     [[''auth'', ''security'', ''oauth'', ''jwt'', ''password'', ''login''],
      [''migration'', ''migrations'', ''schema'', ''db'', ''database''],
      [''github/workflows'', ''ci'', ''terraform'', ''helm'', ''k8s'', ''kubernetes''],
      [''package-lock.json'', ''yarn.lock'', ''pnpm-lock.yaml'', ''requirements.txt'',
       ''poetry.lock'']]"

text \<open>The seven reasons in the order of evaluation, each with its points.\<close>

definition reason_points :: "(string \<times> int) list" where
  "reason_points =
     [(''Large PR: many files changed'', 2),
      (''Large PR: high churn (additions + deletions)'', 2),
      (''Touches auth/security related code'', 3),
      (''Touches database/migrations/schema'', 3),
      (''Touches CI/infra config'', 2),
      (''Touches dependency lockfiles'', 2),
      (''Code changed but tests were not updated'', 2)]"

definition points_of :: "string \<Rightarrow> int" where
  "points_of rsn = (case map_of reason_points rsn of None \<Rightarrow> 0 | Some n \<Rightarrow> n)"

text \<open>The code-without-tests check, in the words of the specification.\<close>

definition code_exts :: "string list" where
  "code_exts = [''ts'', ''tsx'', ''js'', ''jsx'', ''py'', ''java'', ''go'', ''cs'', ''rb'', ''php'']"

definition test_words :: "string list" where
  "test_words = [''test'', ''tests'', ''__tests__'']"

definition spec_code_extension :: "string \<Rightarrow> bool" where
  "spec_code_extension fn = (\<exists>e\<in>set code_exts. suffix (CHR ''.'' # e) fn)"

definition spec_test_indicator :: "string \<Rightarrow> bool" where
  "spec_test_indicator fn =
     ((\<exists>seg\<in>set (split CHR ''/'' fn). seg \<in> set test_words)
      \<or> sublist ''.spec.'' fn \<or> sublist ''.test.'' fn)"

text \<open>
  The same check as the two regular expressions of the source decide it: letter case is
  ignored, and a path segment counts when it begins with one of the three words and the
  word is followed by the end of the segment or by a code unit that is not a word
  character.
\<close>

definition code_extension :: "string \<Rightarrow> bool" where
  "code_extension fn =
     (\<exists>e\<in>set code_exts. suffix (map canonicalize (CHR ''.'' # e)) (map canonicalize fn))"

definition test_segment :: "string \<Rightarrow> bool" where
  "test_segment seg =
     (\<exists>w\<in>set test_words. prefix (map canonicalize w) (map canonicalize seg)
        \<and> (length seg = length w \<or> \<not> is_word_char (seg ! length w)))"

definition test_indicator :: "string \<Rightarrow> bool" where
  "test_indicator fn =
     ((\<exists>seg\<in>set (split CHR ''/'' fn). test_segment seg)
      \<or> contains_ci ''.spec.'' fn \<or> contains_ci ''.test.'' fn)"

text \<open>The position at which a key occurs first in a list.\<close>

definition first_index :: "'a \<Rightarrow> 'a list \<Rightarrow> nat" where
  "first_index k ks = length (takeWhile (\<lambda>x. x \<noteq> k) ks)"

text \<open>The keys of a list without repetitions, in the order of their first occurrence.\<close>

fun first_occurrences :: "'a list \<Rightarrow> 'a list" where
  "first_occurrences [] = []"
| "first_occurrences (k # ks) = k # filter (\<lambda>x. x \<noteq> k) (first_occurrences ks)"

text \<open>The map that the loop of lines 58-61 builds when no file name is missing.\<close>

fun dir_fold :: "string list \<Rightarrow> int list \<Rightarrow> dir_map \<Rightarrow> dir_map" where
  "dir_fold [] cs m = m"
| "dir_fold (k # ks) [] m = m"
| "dir_fold (k # ks) (c # cs) m = dir_fold ks cs (map_set m k (or_zero (map_get m k) + c))"

text \<open>A GitHub API that answers every request with an error, and a renderer.\<close>

definition offline_github :: github where
  "offline_github =
     \<lparr>pulls_get = (\<lambda>tok target. Inl ''offline''),
      pulls_files = (\<lambda>tok target per_page page. Inl ''offline'')\<rparr>"

definition no_markdown :: "pr_info \<Rightarrow> report \<Rightarrow> string" where
  "no_markdown pr rep = []"

text \<open>Some file name of a list matches a regular expression.\<close>

definition matches_some :: "regex \<Rightarrow> string list \<Rightarrow> bool" where
  "matches_some r ns = (\<exists>n\<in>set ns. re_test r n)"

text \<open>The churn of an input: what line 51 computes.\<close>

definition churn_of :: "file_change list \<Rightarrow> int" where
  "churn_of files =
     sum_list (map (\<lambda>f. or_zero (additions f)) files)
     + sum_list (map (\<lambda>f. or_zero (deletions f)) files)"

text \<open>
  A pull request of 25 files and 800 added lines, one of whose file names triggers every
  pattern.
\<close>

definition big_pr :: "file_change list" where
  "big_pr =
     \<lparr>filename = Some ''jwt/db/ci/yarn.lock.go'', additions = Some 800, deletions = Some 0,
      changes = Some 800, status = Some ''added''\<rparr>
     # map (\<lambda>c. \<lparr>filename = Some [CHR ''f'', c], additions = Some 0, deletions = Some 0,
                   changes = Some 0, status = Some ''renamed''\<rparr>)
         ''abcdefghijklmnopqrstuvwx''"

text \<open>
  At the current position one of the three test words begins and is followed by a word
  boundary: what \<^verbatim>\<open>(test|tests|__tests__)\b\<close> asks for.
\<close>

definition test_word_here :: "string \<Rightarrow> bool" where
  "test_word_here r =
     (\<exists>w\<in>set test_words. prefix (map canonicalize w) (map canonicalize r)
        \<and> \<not> word_after (drop (length w) r))"

text \<open>A pull request whose three directories tie on churn.\<close>

definition tied_pr :: "file_change list" where
  "tied_pr =
     [\<lparr>filename = Some ''src/a/one.ts'', additions = Some 3, deletions = Some 0,
       changes = Some 3, status = Some ''modified''\<rparr>,
      \<lparr>filename = Some ''lib/b/two.ts'', additions = Some 4, deletions = Some 1,
       changes = Some 5, status = Some ''modified''\<rparr>,
      \<lparr>filename = Some ''src/a/three.ts'', additions = Some 0, deletions = Some 2,
       changes = Some 2, status = Some ''modified''\<rparr>,
      \<lparr>filename = Some ''docs/readme.md'', additions = Some 5, deletions = Some 0,
       changes = Some 5, status = Some ''added''\<rparr>]"

section \<open>Lemmas about the embedding\<close>

subsection \<open>Code units and regular expressions\<close>


lemma of_char_canonicalize:
  "(of_char (canonicalize c) :: nat) =
     (if 97 \<le> (of_char c :: nat) \<and> (of_char c :: nat) \<le> 122 then of_char c - 32 else of_char c)"
  by (auto simp: canonicalize_def of_char_of)

lemma canonicalize_idem [simp]: "canonicalize (canonicalize c) = canonicalize c"
  by (rule of_char_eq_iff [where ?'a = nat, THEN iffD1]) (auto simp: of_char_canonicalize)

lemma is_word_char_canonicalize [simp]: "is_word_char (canonicalize c) = is_word_char c"
  unfolding is_word_char_def Let_def of_char_canonicalize by auto

lemma is_word_char_cong: "canonicalize a = canonicalize b \<Longrightarrow> is_word_char a = is_word_char b"
  by (metis is_word_char_canonicalize)

lemma canonicalize_non_letter: "\<not> is_letter c \<Longrightarrow> canonicalize c = c"
  by (auto simp: canonicalize_def is_letter_def)

lemma is_letter_canonicalize [simp]: "is_letter (canonicalize c) = is_letter c"
  unfolding is_letter_def of_char_canonicalize by auto

lemma canonicalize_eq_non_letter:
  "\<not> is_letter t \<Longrightarrow> canonicalize c = t \<longleftrightarrow> c = t"
  by (metis canonicalize_non_letter is_letter_canonicalize)

lemma rmatch_lit:
  "rmatch (lit l) (p, r, cs) =
     (if prefix (map canonicalize l) (map canonicalize r)
      then [(if l = [] then p else Some (r ! (length l - 1)), drop (length l) r, cs)]
      else [])"
proof (induction l arbitrary: p r rule: lit.induct)
  case 1
  show ?case by simp
next
  case (2 c)
  show ?case by (cases r) auto
next
  case (3 c d ds)
  show ?case
  proof (cases r)
    case Nil
    then show ?thesis by simp
  next
    case (Cons e es)
    then show ?thesis using 3 [of "Some e" es] by (auto simp: nth_Cons')
  qed
qed

lemma rmatch_alts_lit:
  "ls \<noteq> [] \<Longrightarrow> rmatch (alts (map lit ls)) x = concat (map (\<lambda>l. rmatch (lit l) x) ls)"
proof (induction ls)
  case Nil
  then show ?case by simp
next
  case (Cons l ls)
  then show ?case by (cases ls) simp_all
qed

lemma test_from_iff:
  "test_from r p s \<longleftrightarrow>
     (\<exists>k\<le>length s. rmatch r (if k = 0 then p else Some (s ! (k - 1)), drop k s, []) \<noteq> [])"
proof (induction s arbitrary: p)
  case Nil
  show ?case by simp
next
  case (Cons c cs)
  show ?case (is "?L = ?R")
  proof
    assume ?L
    then consider "rmatch r (p, c # cs, []) \<noteq> []" | "test_from r (Some c) cs"
      by (auto split: if_splits)
    then show ?R
    proof cases
      case 1
      then show ?thesis by (intro exI [of _ 0]) simp
    next
      case 2
      then obtain k where k: "k \<le> length cs"
        "rmatch r (if k = 0 then Some c else Some (cs ! (k - 1)), drop k cs, []) \<noteq> []"
        using Cons by blast
      then show ?thesis by (intro exI [of _ "Suc k"]) (auto simp: nth_Cons')
    qed
  next
    assume ?R
    then obtain k where k: "k \<le> length (c # cs)"
      "rmatch r (if k = 0 then p else Some ((c # cs) ! (k - 1)), drop k (c # cs), []) \<noteq> []"
      by blast
    show ?L
    proof (cases k)
      case 0
      with k show ?thesis by simp
    next
      case (Suc j)
      with k have "j \<le> length cs"
        "rmatch r (if j = 0 then Some c else Some (cs ! (j - 1)), drop j cs, []) \<noteq> []"
        by (auto simp: nth_Cons' split: if_splits)
      then have "test_from r (Some c) cs" using Cons by blast
      then show ?thesis by simp
    qed
  qed
qed

lemma sublist_iff_prefix_drop: "sublist xs ys \<longleftrightarrow> (\<exists>k\<le>length ys. prefix xs (drop k ys))"
proof
  assume "sublist xs ys"
  then obtain ps ss where "ys = ps @ xs @ ss" by (auto simp: sublist_def)
  then show "\<exists>k\<le>length ys. prefix xs (drop k ys)"
    by (intro exI [of _ "length ps"]) simp
next
  assume "\<exists>k\<le>length ys. prefix xs (drop k ys)"
  then obtain k zs where "drop k ys = xs @ zs" by (auto simp: prefix_def)
  then have "ys = take k ys @ xs @ zs" by (metis append_take_drop_id)
  then show "sublist xs ys" unfolding sublist_def by blast
qed

lemma rmatch_word_re_nonempty:
  "ws \<noteq> [] \<Longrightarrow>
   rmatch (word_re n ws) (p, r, cs) \<noteq> [] \<longleftrightarrow>
     (\<exists>w\<in>set ws. prefix (map canonicalize w) (map canonicalize r))"
  by (auto simp: word_re_def rmatch_alts_lit rmatch_lit)

lemma re_test_word_re:
  "ws \<noteq> [] \<Longrightarrow>
   re_test (word_re n ws) s \<longleftrightarrow>
     (\<exists>w\<in>set ws. sublist (map canonicalize w) (map canonicalize s))"
  by (auto simp: re_test_def test_from_iff rmatch_word_re_nonempty sublist_iff_prefix_drop
      drop_map)


subsection \<open>Joined file names\<close>


lemma sublist_across_separator:
  assumes "w \<noteq> []" "c \<notin> set w"
  shows "sublist w (x @ c # z) \<longleftrightarrow> sublist w x \<or> sublist w z"
proof
  assume "sublist w (x @ c # z)"
  then consider "sublist w x" | "sublist w (c # z)"
    | w1 w2 where "w = w1 @ w2" "suffix w1 x" "prefix w2 (c # z)"
    unfolding sublist_append by blast
  then show "sublist w x \<or> sublist w z"
  proof cases
    case 1
    then show ?thesis by simp
  next
    case 2
    then have "prefix w (c # z) \<or> sublist w z" by (simp add: sublist_Cons_right)
    moreover have "\<not> prefix w (c # z)"
      using assms by (cases w) auto
    ultimately show ?thesis by simp
  next
    case 3
    have "w2 = []"
    proof (cases w2)
      case Nil
      then show ?thesis .
    next
      case (Cons d ds)
      with 3 have "d = c" by simp
      with Cons 3 assms show ?thesis by simp
    qed
    with 3 have "suffix w x" by simp
    then show ?thesis by auto
  qed
next
  assume "sublist w x \<or> sublist w z"
  then show "sublist w (x @ c # z)"
    by (auto simp: sublist_append sublist_Cons_right)
qed

lemma sublist_join:
  assumes "w \<noteq> []" "c \<notin> set w"
  shows "sublist w (join [c] ns) \<longleftrightarrow> (\<exists>n\<in>set ns. sublist w n)"
proof (induction ns)
  case Nil
  show ?case using assms by simp
next
  case (Cons x xs)
  show ?case
  proof (cases xs)
    case Nil
    then show ?thesis by simp
  next
    case (Cons y ys)
    then show ?thesis
      using Cons.IH sublist_across_separator [OF assms, of x "join [c] (y # ys)"] by auto
  qed
qed

lemma map_join: "map f (join sep ns) = join (map f sep) (map (map f) ns)"
  by (induction sep ns rule: join.induct) simp_all

lemma pattern_loop_eq:
  "pattern_loop ps j sr =
     (fst sr + sum_list (map (\<lambda>p. if re_test (re p) j then pts p else 0) ps),
      snd sr @ concat (map (\<lambda>p. if re_test (re p) j then [reason p] else []) ps))"
  by (induction ps arbitrary: sr) (simp_all add: algebra_simps)

lemma newline_canonicalize: "canonicalize c = CHR ''\<newline>'' \<longleftrightarrow> c = CHR ''\<newline>''"
  by (rule canonicalize_eq_non_letter) (simp add: is_letter_def)

lemma re_test_word_re_join:
  assumes "ws \<noteq> []" "\<forall>w\<in>set ws. w \<noteq> [] \<and> CHR ''\<newline>'' \<notin> set w"
  shows "re_test (word_re n ws) (join ''\<newline>'' ns) \<longleftrightarrow> (\<exists>x\<in>set ns. re_test (word_re n ws) x)"
proof -
  have nl: "map canonicalize ''\<newline>'' = ''\<newline>''"
    by (simp add: canonicalize_non_letter is_letter_def)
  have *: "sublist (map canonicalize w) (join ''\<newline>'' (map (map canonicalize) ns))
       \<longleftrightarrow> (\<exists>x\<in>set ns. sublist (map canonicalize w) (map canonicalize x))"
    if "w \<in> set ws" for w
  proof -
    from that assms have "w \<noteq> []" "CHR ''\<newline>'' \<notin> set w" by auto
    then have "map canonicalize w \<noteq> []" "CHR ''\<newline>'' \<notin> set (map canonicalize w)"
      by (auto dest: sym [THEN newline_canonicalize [THEN iffD1]])
    from sublist_join [OF this] show ?thesis by simp
  qed
  show ?thesis
    unfolding re_test_word_re [OF assms(1)] map_join nl using * by blast
qed


subsection \<open>The structure of \<^verbatim>\<open>analyze\<close>\<close>


lemma or_zero_eq: "or_zero x = (case x of None \<Rightarrow> 0 | Some n \<Rightarrow> n)"
  by (cases x) simp_all

lemma map_stats_eq:
  "map_stats files a d =
     (map stat_of files, a + sum_list (map (\<lambda>f. or_zero (additions f)) files),
      d + sum_list (map (\<lambda>f. or_zero (deletions f)) files))"
  by (induction files arbitrary: a d) (simp_all add: algebra_simps)

lemma dir_loop_named:
  "\<forall>f\<in>set fs. st_filename f \<noteq> None \<Longrightarrow>
   dir_loop fs m = Inr (dir_fold (map (\<lambda>f. dir_key (the (st_filename f))) fs) (map st_changes fs) m)"
  by (induction fs arbitrary: m) (auto simp: Let_def)

lemma dir_loop_unnamed:
  "\<exists>f\<in>set fs. st_filename f = None \<Longrightarrow> dir_loop fs m = Inl TypeError"
  by (induction fs arbitrary: m) (auto simp: Let_def split: option.splits)

lemma st_filename_stat_of [simp]: "st_filename (stat_of f) = filename f"
  and st_changes_stat_of [simp]: "st_changes (stat_of f) = or_zero (changes f)"
  by (simp_all add: stat_of_def)

lemma analyze_named:
  assumes "\<forall>f\<in>set files. filename f \<noteq> None"
  shows "analyze files =
     Inr \<lparr>metrics = \<lparr>totalFiles = int (length files),
                      m_additions = sum_list (map (\<lambda>f. or_zero (additions f)) files),
                      m_deletions = sum_list (map (\<lambda>f. or_zero (deletions f)) files),
                      churn = sum_list (map (\<lambda>f. or_zero (additions f)) files)
                              + sum_list (map (\<lambda>f. or_zero (deletions f)) files)\<rparr>,
           risk = risk_of (int (length files))
                    (sum_list (map (\<lambda>f. or_zero (additions f)) files)
                     + sum_list (map (\<lambda>f. or_zero (deletions f)) files))
                    (map stat_of files),
           hotspots = map (\<lambda>(d, c). \<lparr>dir = d, h_churn = c\<rparr>)
                        (slice0 8 (sort_by (\<lambda>a b. snd b - snd a)
                           (dir_fold (map dir_key (file_names files)) (map (\<lambda>f. or_zero (changes f)) files) []))),
           biggestFiles = slice0 8 (sort_by (\<lambda>a b. st_changes b - st_changes a) (map stat_of files))\<rparr>"
proof -
  have "\<forall>f\<in>set (map stat_of files). st_filename f \<noteq> None"
    using assms by simp
  from dir_loop_named [OF this, of "[]"]
  show ?thesis
    by (simp add: analyze_def map_stats_eq Let_def file_names_def comp_def)
qed

lemma analyze_unnamed:
  assumes "\<exists>f\<in>set files. filename f = None"
  shows "analyze files = Inl TypeError"
proof -
  have "\<exists>f\<in>set (map stat_of files). st_filename f = None"
    using assms by simp
  from dir_loop_unnamed [OF this, of "[]"]
  show ?thesis
    by (simp add: analyze_def map_stats_eq Let_def)
qed


subsection \<open>The risk section\<close>


lemma patterns_word_re:
  "map re patterns = map (word_re 1) pattern_words"
  by (simp add: patterns_def pattern_words_def word_re_def re_auth_def re_db_def re_ci_def
      re_lock_def)

lemma pattern_words_ok:
  "\<forall>ws\<in>set pattern_words. ws \<noteq> [] \<and> (\<forall>w\<in>set ws. w \<noteq> [] \<and> CHR ''\<newline>'' \<notin> set w)"
  by (simp add: pattern_words_def)

lemma pattern_re_cases:
  assumes "p \<in> set patterns"
  obtains ws where "ws \<in> set pattern_words" "re p = word_re 1 ws"
proof -
  from assms have "re p \<in> set (map re patterns)" by simp
  then have "re p \<in> set (map (word_re 1) pattern_words)" by (simp only: patterns_word_re)
  then show ?thesis using that by auto
qed

lemma pattern_joined:
  assumes "p \<in> set patterns"
  shows "re_test (re p) (join ''\<newline>'' ns) \<longleftrightarrow> matches_some (re p) ns"
proof -
  from assms obtain ws where ws: "ws \<in> set pattern_words" "re p = word_re 1 ws"
    by (rule pattern_re_cases)
  with pattern_words_ok have "ws \<noteq> []" "\<forall>w\<in>set ws. w \<noteq> [] \<and> CHR ''\<newline>'' \<notin> set w"
    by blast+
  from re_test_word_re_join [OF this] ws show ?thesis
    by (simp add: matches_some_def)
qed

lemma pattern_words_match:
  "list_all2 (\<lambda>p ws. \<forall>s. re_test (re p) s \<longleftrightarrow> (\<exists>w\<in>set ws. contains_ci w s))
     patterns pattern_words"
proof -
  have "list_all2 (\<lambda>r ws. \<forall>s. re_test r s \<longleftrightarrow> (\<exists>w\<in>set ws. contains_ci w s))
          (map (word_re 1) pattern_words) pattern_words"
    unfolding list_all2_map1 contains_ci_def list_all2_same
    using pattern_words_ok by (simp add: re_test_word_re)
  then show ?thesis
    unfolding patterns_word_re [symmetric] list_all2_map1 .
qed

lemma joined_named:
  "\<forall>f\<in>set files. filename f \<noteq> None \<Longrightarrow>
   map (\<lambda>f. join_elem (st_filename f)) (map stat_of files) = file_names files"
  by (induction files) (auto simp: file_names_def)

lemma hasCodeTouched_named:
  "\<forall>f\<in>set files. filename f \<noteq> None \<Longrightarrow>
   hasCodeTouched (map stat_of files) \<longleftrightarrow> matches_some re_code (file_names files)"
  by (induction files) (auto simp: file_names_def hasCodeTouched_def matches_some_def)

lemma hasTestsTouched_named:
  "\<forall>f\<in>set files. filename f \<noteq> None \<Longrightarrow>
   hasTestsTouched (map stat_of files) \<longleftrightarrow> matches_some re_tests (file_names files)"
  by (induction files) (auto simp: file_names_def hasTestsTouched_def matches_some_def)

text \<open>The score and the reasons, check by check.\<close>

lemma size_checks_eq:
  "size_checks n ch =
     ((if 25 \<le> n then 2 else 0) + (if 800 \<le> ch then 2 else 0),
      (if 25 \<le> n then [''Large PR: many files changed''] else [])
      @ (if 800 \<le> ch then [''Large PR: high churn (additions + deletions)''] else []))"
  by (simp add: size_checks_def)

lemma tests_check_eq:
  "tests_check stats sr =
     (fst sr + (if hasCodeTouched stats \<and> \<not> hasTestsTouched stats then 2 else 0),
      snd sr @ (if hasCodeTouched stats \<and> \<not> hasTestsTouched stats
                then [''Code changed but tests were not updated''] else []))"
  by (simp add: tests_check_def)

lemma pattern_sum_cong:
  assumes "\<And>p. p \<in> set ps \<Longrightarrow> f p = g p"
  shows "sum_list (map (\<lambda>p. if f p then pts p else 0) ps)
       = sum_list (map (\<lambda>p. if g p then pts p else 0) ps)"
    and "concat (map (\<lambda>p. if f p then [reason p] else []) ps)
       = concat (map (\<lambda>p. if g p then [reason p] else []) ps)"
  using assms by (induction ps) auto

lemma risk_of_named:
  assumes "\<forall>f\<in>set files. filename f \<noteq> None"
  defines "ns \<equiv> file_names files"
  defines "untested \<equiv> matches_some re_code ns \<and> \<not> matches_some re_tests ns"
  shows "score (risk_of n ch (map stat_of files)) =
           (if 25 \<le> n then 2 else 0) + (if 800 \<le> ch then 2 else 0)
           + sum_list (map (\<lambda>p. if matches_some (re p) ns then pts p else 0) patterns)
           + (if untested then 2 else 0)"
    and "reasons (risk_of n ch (map stat_of files)) =
           (if 25 \<le> n then [''Large PR: many files changed''] else [])
           @ (if 800 \<le> ch then [''Large PR: high churn (additions + deletions)''] else [])
           @ concat (map (\<lambda>p. if matches_some (re p) ns then [reason p] else []) patterns)
           @ (if untested then [''Code changed but tests were not updated''] else [])"
    and "level (risk_of n ch (map stat_of files)) = level_of (score (risk_of n ch (map stat_of files)))"
proof -
  note j = joined_named [OF assms(1)]
  note c = hasCodeTouched_named [OF assms(1)] hasTestsTouched_named [OF assms(1)]
  note s = pattern_sum_cong [of patterns "\<lambda>p. re_test (re p) (join ''\<newline>'' ns)"
      "\<lambda>p. matches_some (re p) ns", OF pattern_joined]
  show "score (risk_of n ch (map stat_of files)) =
           (if 25 \<le> n then 2 else 0) + (if 800 \<le> ch then 2 else 0)
           + sum_list (map (\<lambda>p. if matches_some (re p) ns then pts p else 0) patterns)
           + (if untested then 2 else 0)"
    unfolding risk_of_def Let_def j c pattern_loop_eq tests_check_eq size_checks_eq
      ns_def [symmetric] untested_def
    by (simp add: s)
  show "reasons (risk_of n ch (map stat_of files)) =
           (if 25 \<le> n then [''Large PR: many files changed''] else [])
           @ (if 800 \<le> ch then [''Large PR: high churn (additions + deletions)''] else [])
           @ concat (map (\<lambda>p. if matches_some (re p) ns then [reason p] else []) patterns)
           @ (if untested then [''Code changed but tests were not updated''] else [])"
    unfolding risk_of_def Let_def j c pattern_loop_eq tests_check_eq size_checks_eq
      ns_def [symmetric] untested_def
    by (simp add: s)
  show "level (risk_of n ch (map stat_of files)) = level_of (score (risk_of n ch (map stat_of files)))"
    by (simp add: risk_of_def Let_def)
qed


subsection \<open>The canonical form of the code units that occur in file names\<close>

lemma canonicalize_table:
  "canonicalize CHR ''a'' = CHR ''A''" "canonicalize CHR ''b'' = CHR ''B''"
  "canonicalize CHR ''c'' = CHR ''C''" "canonicalize CHR ''d'' = CHR ''D''"
  "canonicalize CHR ''e'' = CHR ''E''" "canonicalize CHR ''f'' = CHR ''F''"
  "canonicalize CHR ''g'' = CHR ''G''" "canonicalize CHR ''h'' = CHR ''H''"
  "canonicalize CHR ''i'' = CHR ''I''" "canonicalize CHR ''j'' = CHR ''J''"
  "canonicalize CHR ''k'' = CHR ''K''" "canonicalize CHR ''l'' = CHR ''L''"
  "canonicalize CHR ''m'' = CHR ''M''" "canonicalize CHR ''n'' = CHR ''N''"
  "canonicalize CHR ''o'' = CHR ''O''" "canonicalize CHR ''p'' = CHR ''P''"
  "canonicalize CHR ''q'' = CHR ''Q''" "canonicalize CHR ''r'' = CHR ''R''"
  "canonicalize CHR ''s'' = CHR ''S''" "canonicalize CHR ''t'' = CHR ''T''"
  "canonicalize CHR ''u'' = CHR ''U''" "canonicalize CHR ''v'' = CHR ''V''"
  "canonicalize CHR ''w'' = CHR ''W''" "canonicalize CHR ''x'' = CHR ''X''"
  "canonicalize CHR ''y'' = CHR ''Y''" "canonicalize CHR ''z'' = CHR ''Z''"
  "canonicalize CHR ''A'' = CHR ''A''" "canonicalize CHR ''B'' = CHR ''B''"
  "canonicalize CHR ''C'' = CHR ''C''" "canonicalize CHR ''D'' = CHR ''D''"
  "canonicalize CHR ''E'' = CHR ''E''" "canonicalize CHR ''F'' = CHR ''F''"
  "canonicalize CHR ''G'' = CHR ''G''" "canonicalize CHR ''H'' = CHR ''H''"
  "canonicalize CHR ''I'' = CHR ''I''" "canonicalize CHR ''J'' = CHR ''J''"
  "canonicalize CHR ''K'' = CHR ''K''" "canonicalize CHR ''L'' = CHR ''L''"
  "canonicalize CHR ''M'' = CHR ''M''" "canonicalize CHR ''N'' = CHR ''N''"
  "canonicalize CHR ''O'' = CHR ''O''" "canonicalize CHR ''P'' = CHR ''P''"
  "canonicalize CHR ''Q'' = CHR ''Q''" "canonicalize CHR ''R'' = CHR ''R''"
  "canonicalize CHR ''S'' = CHR ''S''" "canonicalize CHR ''T'' = CHR ''T''"
  "canonicalize CHR ''U'' = CHR ''U''" "canonicalize CHR ''V'' = CHR ''V''"
  "canonicalize CHR ''W'' = CHR ''W''" "canonicalize CHR ''X'' = CHR ''X''"
  "canonicalize CHR ''Y'' = CHR ''Y''" "canonicalize CHR ''Z'' = CHR ''Z''"
  "canonicalize CHR ''0'' = CHR ''0''" "canonicalize CHR ''1'' = CHR ''1''"
  "canonicalize CHR ''2'' = CHR ''2''" "canonicalize CHR ''3'' = CHR ''3''"
  "canonicalize CHR ''4'' = CHR ''4''" "canonicalize CHR ''5'' = CHR ''5''"
  "canonicalize CHR ''6'' = CHR ''6''" "canonicalize CHR ''7'' = CHR ''7''"
  "canonicalize CHR ''8'' = CHR ''8''" "canonicalize CHR ''9'' = CHR ''9''"
  "canonicalize CHR ''.'' = CHR ''.''" "canonicalize CHR ''/'' = CHR ''/''"
  "canonicalize CHR ''-'' = CHR ''-''" "canonicalize CHR ''_'' = CHR ''_''"
  "canonicalize CHR '':'' = CHR '':''"
  "canonicalize CHR ''\<newline>'' = CHR ''\<newline>''"
  by (simp_all add: of_char_eq_iff [where ?'a = nat, symmetric] of_char_canonicalize)


subsection \<open>What the two regular expressions of the code-without-tests check match\<close>

lemma in_rmatch_word_re:
  assumes "ws \<noteq> []"
  shows "y \<in> set (rmatch (word_re n ws) (p, r, cs)) \<longleftrightarrow>
     (\<exists>w\<in>set ws. prefix (map canonicalize w) (map canonicalize r)
        \<and> y = (if w = [] then p else Some (r ! (length w - 1)), drop (length w) r,
               (n, take (length w) r) # cs))"
proof -
  have len: "length r - (length r - length w) = length w"
    if "prefix (map canonicalize w) (map canonicalize r)" for w
  proof -
    from that have "length (map canonicalize w) \<le> length (map canonicalize r)"
      by (rule prefix_length_le)
    then show ?thesis by simp
  qed
  show ?thesis
    unfolding word_re_def using assms
    by (auto simp: rmatch_alts_lit rmatch_lit len image_iff split: if_splits)
qed

lemma bex_rmatch_word_re:
  assumes "ws \<noteq> []"
  shows "(\<exists>y\<in>set (rmatch (word_re n ws) (p, r, cs)). Q y) \<longleftrightarrow>
     (\<exists>w\<in>set ws. prefix (map canonicalize w) (map canonicalize r)
        \<and> Q (if w = [] then p else Some (r ! (length w - 1)), drop (length w) r,
               (n, take (length w) r) # cs))"
  unfolding Bex_def in_rmatch_word_re [OF assms] by blast

lemma concat_map_nonempty: "concat (map f xs) \<noteq> [] \<longleftrightarrow> (\<exists>x\<in>set xs. f x \<noteq> [])"
  by (induction xs) auto

lemma rmatch_Eol_nonempty: "rmatch Eol y \<noteq> [] \<longleftrightarrow> fst (snd y) = []"
  by (cases y) simp

lemma prefix_drop_Nil:
  "prefix u v \<and> drop (length u) v = [] \<longleftrightarrow> v = u"
  by (auto simp: prefix_def)

lemma rmatch_re_code:
  "rmatch re_code (p, r, cs) \<noteq> [] \<longleftrightarrow>
     (\<exists>e\<in>set code_exts. map canonicalize r = map canonicalize (CHR ''.'' # e))"
proof (cases r)
  case Nil
  then show ?thesis by (simp add: re_code_def)
next
  case (Cons d ds)
  have ne: "code_exts \<noteq> []" by (simp add: code_exts_def)
  have re: "re_code = Seq (Chr CHR ''.'') (Seq (word_re 1 code_exts) Eol)"
    by (simp add: re_code_def word_re_def code_exts_def)
  have "rmatch (Seq (word_re 1 code_exts) Eol) (Some d, ds, cs) \<noteq> [] \<longleftrightarrow>
        (\<exists>e\<in>set code_exts. map canonicalize ds = map canonicalize e)"
  proof -
    have "rmatch (Seq (word_re 1 code_exts) Eol) (Some d, ds, cs) \<noteq> [] \<longleftrightarrow>
          (\<exists>y\<in>set (rmatch (word_re 1 code_exts) (Some d, ds, cs)). fst (snd y) = [])"
      by (simp add: concat_map_nonempty rmatch_Eol_nonempty)
    also have "\<dots> \<longleftrightarrow> (\<exists>e\<in>set code_exts. prefix (map canonicalize e) (map canonicalize ds)
                  \<and> drop (length (map canonicalize e)) (map canonicalize ds) = [])"
      unfolding bex_rmatch_word_re [OF ne] by (simp add: drop_map)
    also have "\<dots> \<longleftrightarrow> (\<exists>e\<in>set code_exts. map canonicalize ds = map canonicalize e)"
      unfolding prefix_drop_Nil ..
    finally show ?thesis .
  qed
  then show ?thesis
    unfolding re Cons by auto
qed

lemma suffix_iff_drop: "suffix xs ys \<longleftrightarrow> (\<exists>k\<le>length ys. drop k ys = xs)"
proof
  assume "suffix xs ys"
  then obtain zs where "ys = zs @ xs" by (auto simp: suffix_def)
  then show "\<exists>k\<le>length ys. drop k ys = xs"
    by (intro exI [of _ "length zs"]) simp
next
  assume "\<exists>k\<le>length ys. drop k ys = xs"
  then show "suffix xs ys" by (metis suffix_drop)
qed

lemma re_test_re_code: "re_test re_code s \<longleftrightarrow> code_extension s"
proof -
  have "re_test re_code s \<longleftrightarrow>
        (\<exists>k\<le>length s. \<exists>e\<in>set code_exts.
            map canonicalize (drop k s) = map canonicalize (CHR ''.'' # e))"
    unfolding re_test_def test_from_iff rmatch_re_code ..
  also have "\<dots> \<longleftrightarrow>
        (\<exists>e\<in>set code_exts. \<exists>k\<le>length (map canonicalize s).
            drop k (map canonicalize s) = map canonicalize (CHR ''.'' # e))"
    unfolding drop_map length_map by blast
  also have "\<dots> \<longleftrightarrow> code_extension s"
    unfolding code_extension_def suffix_iff_drop ..
  finally show ?thesis .
qed

lemma slash_canonicalize: "canonicalize d = canonicalize CHR ''/'' \<longleftrightarrow> d = CHR ''/''"
proof -
  have "\<not> is_letter CHR ''/''" by (simp add: is_letter_def)
  then show ?thesis
    by (metis canonicalize_eq_non_letter canonicalize_non_letter)
qed

lemma rmatch_segment_start:
  "rmatch (Group 1 (Alt Bol (Chr CHR ''/''))) (p, r, cs) =
     (if p = None then [(p, r, (1, []) # cs)] else [])
     @ (case r of [] \<Rightarrow> []
        | d # ds \<Rightarrow> if d = CHR ''/'' then [(Some d, ds, (1, [d]) # cs)] else [])"
  by (cases r) (simp_all add: slash_canonicalize)

lemma prefix_map_nth:
  assumes "prefix (map f w) (map f r)" "i < length w"
  shows "f (r ! i) = f (w ! i)"
proof -
  from assms(1) obtain zs where zs: "map f r = map f w @ zs" by (auto simp: prefix_def)
  then have "length w \<le> length r"
    by (metis length_map prefix_length_le assms(1))
  with assms(2) have "i < length r" by simp
  then have "f (r ! i) = map f r ! i" by simp
  also have "\<dots> = map f w ! i" unfolding zs using assms(2) by (simp add: nth_append)
  also have "\<dots> = f (w ! i)" using assms(2) by simp
  finally show ?thesis .
qed

lemma test_words_last_word_char:
  "\<forall>w\<in>set test_words. w \<noteq> [] \<and> is_word_char (w ! (length w - 1))"
  by (simp add: test_words_def is_word_char_def)

lemma rmatch_WordB_nonempty:
  "rmatch WordB y \<noteq> [] \<longleftrightarrow> word_before (fst y) \<noteq> word_after (fst (snd y))"
  by (cases y) simp

lemma rmatch_test_word:
  "rmatch (Seq (word_re 2 test_words) WordB) (p, r, cs) \<noteq> [] \<longleftrightarrow> test_word_here r"
proof -
  have ne: "test_words \<noteq> []" by (simp add: test_words_def)
  have wb: "word_before (if w = [] then p else Some (r ! (length w - 1)))"
    if "w \<in> set test_words" "prefix (map canonicalize w) (map canonicalize r)" for w
  proof -
    from that(1) test_words_last_word_char
    have w: "w \<noteq> []" "is_word_char (w ! (length w - 1))" by auto
    then have "length w - 1 < length w" by simp
    from prefix_map_nth [OF that(2) this]
    have "is_word_char (r ! (length w - 1)) = is_word_char (w ! (length w - 1))"
      by (rule is_word_char_cong)
    with w show ?thesis by simp
  qed
  have "rmatch (Seq (word_re 2 test_words) WordB) (p, r, cs) \<noteq> [] \<longleftrightarrow>
        (\<exists>y\<in>set (rmatch (word_re 2 test_words) (p, r, cs)).
            word_before (fst y) \<noteq> word_after (fst (snd y)))"
    by (simp add: concat_map_nonempty rmatch_WordB_nonempty)
  also have "\<dots> \<longleftrightarrow> test_word_here r"
    unfolding bex_rmatch_word_re [OF ne] test_word_here_def fst_conv snd_conv
  proof (intro bex_cong refl conj_cong)
    fix w
    assume "w \<in> set test_words" "prefix (map canonicalize w) (map canonicalize r)"
    from wb [OF this]
    show "(word_before (if w = [] then p else Some (r ! (length w - 1)))
             \<noteq> word_after (drop (length w) r))
          = (\<not> word_after (drop (length w) r))"
      by simp
  qed
  finally show ?thesis .
qed

lemma rmatch_re_tests:
  "rmatch re_tests (p, r, cs) \<noteq> [] \<longleftrightarrow>
     (p = None \<and> test_word_here r)
     \<or> (\<exists>ds. r = CHR ''/'' # ds \<and> test_word_here ds)
     \<or> prefix (map canonicalize ''.spec.'') (map canonicalize r)
     \<or> prefix (map canonicalize ''.test.'') (map canonicalize r)"
proof -
  have re: "re_tests =
     Alt (Seq (Group 1 (Alt Bol (Chr CHR ''/''))) (Seq (word_re 2 test_words) WordB))
      (Alt (lit ''.spec.'') (lit ''.test.''))"
    by (simp add: re_tests_def word_re_def test_words_def)
  have "rmatch (Seq (Group 1 (Alt Bol (Chr CHR ''/''))) (Seq (word_re 2 test_words) WordB))
          (p, r, cs) \<noteq> [] \<longleftrightarrow>
        (p = None \<and> test_word_here r) \<or> (\<exists>ds. r = CHR ''/'' # ds \<and> test_word_here ds)"
    unfolding rmatch.simps(11) [of "Group 1 (Alt Bol (Chr CHR ''/''))"] rmatch_segment_start
      concat_map_nonempty
    by (cases r) (auto simp: rmatch_test_word simp del: rmatch.simps)
  then show ?thesis
    unfolding re rmatch.simps(12) append_is_Nil_conv de_Morgan_conj rmatch_lit
    by auto
qed

lemma split_nonempty [simp]: "split c s \<noteq> []"
  by (induction s) (auto split: list.splits)

lemma hd_split: "hd (split c s) = takeWhile (\<lambda>x. x \<noteq> c) s"
  by (induction s) (auto split: list.splits)

lemma tl_split_Cons:
  "tl (split c (x # xs)) = (if x = c then split c xs else tl (split c xs))"
  by (auto split: list.splits)

lemma in_tl_split:
  "seg \<in> set (tl (split c s)) \<longleftrightarrow>
     (\<exists>pre post. s = pre @ post \<and> pre \<noteq> [] \<and> last pre = c
        \<and> seg = takeWhile (\<lambda>x. x \<noteq> c) post)"
proof (induction s)
  case Nil
  show ?case by simp
next
  case (Cons x xs)
  have set_split: "set (split c xs) = insert (takeWhile (\<lambda>x. x \<noteq> c) xs) (set (tl (split c xs)))"
    by (metis hd_split list.collapse list.simps(15) split_nonempty)
  show ?case (is "?L = ?R")
  proof
    assume ?L
    then have "seg \<in> set (if x = c then split c xs else tl (split c xs))"
      by (simp only: tl_split_Cons)
    then consider "x = c" "seg = takeWhile (\<lambda>x. x \<noteq> c) xs"
      | "seg \<in> set (tl (split c xs))"
      using set_split by (auto split: if_splits)
    then show ?R
    proof cases
      case 1
      then show ?thesis by (intro exI [of _ "[x]"] exI [of _ xs]) simp
    next
      case 2
      then obtain pre post where "xs = pre @ post" "pre \<noteq> []" "last pre = c"
        "seg = takeWhile (\<lambda>x. x \<noteq> c) post"
        using Cons.IH by blast
      then show ?thesis by (intro exI [of _ "x # pre"] exI [of _ post]) simp
    qed
  next
    assume ?R
    then obtain pre post where p: "x # xs = pre @ post" "pre \<noteq> []" "last pre = c"
      "seg = takeWhile (\<lambda>x. x \<noteq> c) post"
      by blast
    then obtain pre' where pre': "pre = x # pre'" "xs = pre' @ post"
      by (cases pre) auto
    show ?L
    proof (cases "pre' = []")
      case True
      with p pre' have "x = c" "seg = takeWhile (\<lambda>x. x \<noteq> c) xs" by auto
      then show ?thesis unfolding tl_split_Cons using set_split by simp
    next
      case False
      with p pre' have "last pre' = c" by simp
      with False pre' p have "seg \<in> set (tl (split c xs))"
        using Cons.IH by blast
      then show ?thesis unfolding tl_split_Cons using set_split by simp
    qed
  qed
qed

lemma in_split:
  "seg \<in> set (split c s) \<longleftrightarrow>
     (\<exists>pre post. s = pre @ post \<and> (pre = [] \<or> last pre = c)
        \<and> seg = takeWhile (\<lambda>x. x \<noteq> c) post)"
proof -
  have "set (split c s) = insert (takeWhile (\<lambda>x. x \<noteq> c) s) (set (tl (split c s)))"
    by (metis hd_split list.collapse list.simps(15) split_nonempty)
  then have "seg \<in> set (split c s) \<longleftrightarrow>
      seg = takeWhile (\<lambda>x. x \<noteq> c) s \<or> seg \<in> set (tl (split c s))"
    by simp
  also have "\<dots> \<longleftrightarrow> (\<exists>pre post. s = pre @ post \<and> (pre = [] \<or> last pre = c)
        \<and> seg = takeWhile (\<lambda>x. x \<noteq> c) post)"
    unfolding in_tl_split by (cases "seg = takeWhile (\<lambda>x. x \<noteq> c) s") force+
  finally show ?thesis .
qed

lemma test_from_iff_split:
  "test_from r p s \<longleftrightarrow>
     (\<exists>pre post. s = pre @ post
        \<and> rmatch r (if pre = [] then p else Some (last pre), post, []) \<noteq> [])"
proof (induction s arbitrary: p)
  case Nil
  show ?case by simp
next
  case (Cons c cs)
  show ?case (is "?L = ?R")
  proof
    assume ?L
    then consider "rmatch r (p, c # cs, []) \<noteq> []" | "test_from r (Some c) cs"
      by (auto split: if_splits)
    then show ?R
    proof cases
      case 1
      then show ?thesis by (intro exI [of _ "[]"] exI [of _ "c # cs"]) simp
    next
      case 2
      then obtain pre post where "cs = pre @ post"
        "rmatch r (if pre = [] then Some c else Some (last pre), post, []) \<noteq> []"
        using Cons.IH by blast
      then show ?thesis by (intro exI [of _ "c # pre"] exI [of _ post]) auto
    qed
  next
    assume ?R
    then obtain pre post where p: "c # cs = pre @ post"
      "rmatch r (if pre = [] then p else Some (last pre), post, []) \<noteq> []"
      by blast
    show ?L
    proof (cases pre)
      case Nil
      with p have "post = c # cs" by simp
      with p Nil show ?thesis by simp
    next
      case (Cons d pre')
      with p have "cs = pre' @ post"
        "rmatch r (if pre' = [] then Some c else Some (last pre'), post, []) \<noteq> []"
        by (auto split: if_splits)
      then have "test_from r (Some c) cs" using Cons.IH by blast
      then show ?thesis by simp
    qed
  qed
qed

lemma sublist_iff_split: "sublist xs ys \<longleftrightarrow> (\<exists>pre post. ys = pre @ post \<and> prefix xs post)"
  unfolding sublist_def prefix_def by blast

lemma contains_ci_iff_split:
  "contains_ci w s \<longleftrightarrow>
     (\<exists>pre post. s = pre @ post \<and> prefix (map canonicalize w) (map canonicalize post))"
  unfolding contains_ci_def sublist_iff_split
  by (auto simp: map_eq_append_conv)

lemma prefix_takeWhile:
  "\<forall>x\<in>set u. P x \<Longrightarrow> prefix u (takeWhile P v) \<longleftrightarrow> prefix u v"
proof (induction u arbitrary: v)
  case Nil
  show ?case by simp
next
  case (Cons a u)
  then show ?case by (cases v) auto
qed

lemma map_canonicalize_segment:
  "map canonicalize (takeWhile (\<lambda>x. x \<noteq> CHR ''/'') r)
     = takeWhile (\<lambda>y. y \<noteq> CHR ''/'') (map canonicalize r)"
proof -
  have sl: "canonicalize CHR ''/'' = CHR ''/''"
    by (simp add: canonicalize_non_letter is_letter_def)
  have "canonicalize x \<noteq> CHR ''/'' \<longleftrightarrow> x \<noteq> CHR ''/''" for x
    using slash_canonicalize [of x] unfolding sl by simp
  then show ?thesis by (simp add: takeWhile_map comp_def)
qed

lemma test_words_no_slash:
  "\<forall>w\<in>set test_words. \<forall>y\<in>set (map canonicalize w). y \<noteq> CHR ''/''"
  by (simp add: test_words_def canonicalize_table)

lemma word_after_rest:
  "\<not> word_after (dropWhile (\<lambda>x. x \<noteq> CHR ''/'') r)"
proof (cases "dropWhile (\<lambda>x. x \<noteq> CHR ''/'') r")
  case Nil
  then show ?thesis by (simp only: word_after.simps not_False_eq_True)
next
  case (Cons d ds)
  then have "d = CHR ''/''"
    using hd_dropWhile [of "\<lambda>x. x \<noteq> CHR ''/''" r] by simp
  with Cons show ?thesis by (simp add: is_word_char_def)
qed

lemma test_word_here_segment:
  "test_word_here r \<longleftrightarrow> test_segment (takeWhile (\<lambda>x. x \<noteq> CHR ''/'') r)"
proof -
  define seg where "seg = takeWhile (\<lambda>x. x \<noteq> CHR ''/'') r"
  define rest where "rest = dropWhile (\<lambda>x. x \<noteq> CHR ''/'') r"
  have r: "r = seg @ rest" by (simp add: seg_def rest_def)
  have rest: "\<not> word_after rest" unfolding rest_def by (rule word_after_rest)
  have pre: "prefix (map canonicalize w) (map canonicalize r)
      \<longleftrightarrow> prefix (map canonicalize w) (map canonicalize seg)"
    if "w \<in> set test_words" for w
    unfolding seg_def map_canonicalize_segment
    using that test_words_no_slash by (simp add: prefix_takeWhile)
  have bnd: "\<not> word_after (drop (length w) r)
      \<longleftrightarrow> (length seg = length w \<or> \<not> is_word_char (seg ! length w))"
    if "prefix (map canonicalize w) (map canonicalize seg)" for w
  proof -
    from that have le: "length w \<le> length seg"
      by (metis length_map prefix_length_le)
    show ?thesis
    proof (cases "length seg = length w")
      case True
      then show ?thesis using rest by (simp add: r)
    next
      case False
      with le have lt: "length w < length seg" by simp
      then have "drop (length w) r = seg ! length w # drop (Suc (length w)) seg @ rest"
        by (simp add: r Cons_nth_drop_Suc)
      with False show ?thesis by simp
    qed
  qed
  have eq: "(prefix (map canonicalize w) (map canonicalize r)
            \<and> \<not> word_after (drop (length w) r))
        = (prefix (map canonicalize w) (map canonicalize seg)
            \<and> (length seg = length w \<or> \<not> is_word_char (seg ! length w)))"
    if w: "w \<in> set test_words" for w
  proof (cases "prefix (map canonicalize w) (map canonicalize seg)")
    case True
    with pre [OF w] bnd [OF True] show ?thesis by simp
  next
    case False
    with pre [OF w] show ?thesis by simp
  qed
  show ?thesis
  proof
    assume "test_word_here r"
    then obtain w where w: "w \<in> set test_words"
      "prefix (map canonicalize w) (map canonicalize r) \<and> \<not> word_after (drop (length w) r)"
      unfolding test_word_here_def by blast
    from w(2) have "prefix (map canonicalize w) (map canonicalize seg)
            \<and> (length seg = length w \<or> \<not> is_word_char (seg ! length w))"
      unfolding eq [OF w(1)] .
    with w(1) show "test_segment (takeWhile (\<lambda>x. x \<noteq> CHR ''/'') r)"
      unfolding test_segment_def seg_def [symmetric] by (rule bexI [rotated])
  next
    assume "test_segment (takeWhile (\<lambda>x. x \<noteq> CHR ''/'') r)"
    then obtain w where w: "w \<in> set test_words"
      "prefix (map canonicalize w) (map canonicalize seg)
            \<and> (length seg = length w \<or> \<not> is_word_char (seg ! length w))"
      unfolding test_segment_def seg_def [symmetric] by blast
    from w(2) have "prefix (map canonicalize w) (map canonicalize r)
            \<and> \<not> word_after (drop (length w) r)"
      unfolding eq [OF w(1)] .
    with w(1) show "test_word_here r"
      unfolding test_word_here_def by (rule bexI [rotated])
  qed
qed

lemma re_test_re_tests: "re_test re_tests s \<longleftrightarrow> test_indicator s"
proof -
  have "re_test re_tests s \<longleftrightarrow>
      (\<exists>pre post. s = pre @ post \<and>
         ((pre = [] \<and> test_word_here post)
          \<or> (\<exists>ds. post = CHR ''/'' # ds \<and> test_word_here ds)
          \<or> prefix (map canonicalize ''.spec.'') (map canonicalize post)
          \<or> prefix (map canonicalize ''.test.'') (map canonicalize post)))"
  proof -
    have none: "((if pre = [] then None else Some (last pre)) = None) = (pre = [])"
      for pre :: string
      by simp
    show ?thesis
      unfolding re_test_def test_from_iff_split
      by (simp only: rmatch_re_tests none)
  qed
  also have "\<dots> \<longleftrightarrow>
      (\<exists>pre post. s = pre @ post \<and> (pre = [] \<or> last pre = CHR ''/'') \<and> test_word_here post)
      \<or> contains_ci ''.spec.'' s \<or> contains_ci ''.test.'' s"
    (is "?A \<longleftrightarrow> ?B \<or> ?C \<or> ?D")
  proof
    assume ?A
    then obtain pre post where s: "s = pre @ post" and
      d: "(pre = [] \<and> test_word_here post)
          \<or> (\<exists>ds. post = CHR ''/'' # ds \<and> test_word_here ds)
          \<or> prefix (map canonicalize ''.spec.'') (map canonicalize post)
          \<or> prefix (map canonicalize ''.test.'') (map canonicalize post)"
      by blast
    from d consider "pre = []" "test_word_here post"
      | ds where "post = CHR ''/'' # ds" "test_word_here ds"
      | "prefix (map canonicalize ''.spec.'') (map canonicalize post)"
      | "prefix (map canonicalize ''.test.'') (map canonicalize post)"
      by blast
    then show "?B \<or> ?C \<or> ?D"
    proof cases
      case 1
      with s show ?thesis by blast
    next
      case 2
      with s have "s = (pre @ [CHR ''/'']) @ ds" "last (pre @ [CHR ''/'']) = CHR ''/''"
        by simp_all
      with 2 show ?thesis by blast
    next
      case 3
      with s show ?thesis unfolding contains_ci_iff_split by blast
    next
      case 4
      with s show ?thesis unfolding contains_ci_iff_split by blast
    qed
  next
    assume "?B \<or> ?C \<or> ?D"
    then consider pre post where "s = pre @ post" "pre = []" "test_word_here post"
      | pre post where "s = pre @ post" "pre \<noteq> []" "last pre = CHR ''/''" "test_word_here post"
      | ?C | ?D
      by blast
    then show ?A
    proof cases
      case 1
      then show ?thesis by blast
    next
      case 2
      then have "s = butlast pre @ (CHR ''/'' # post)"
        by (metis append.assoc append_Cons append_Nil append_butlast_last_id)
      with 2 show ?thesis by blast
    next
      case 3
      then show ?thesis unfolding contains_ci_iff_split by blast
    next
      case 4
      then show ?thesis unfolding contains_ci_iff_split by blast
    qed
  qed
  also have "(\<exists>pre post. s = pre @ post \<and> (pre = [] \<or> last pre = CHR ''/'') \<and> test_word_here post)
      \<longleftrightarrow> (\<exists>seg\<in>set (split CHR ''/'' s). test_segment seg)"
  proof
    assume "\<exists>pre post. s = pre @ post \<and> (pre = [] \<or> last pre = CHR ''/'') \<and> test_word_here post"
    then obtain pre post where p: "s = pre @ post" "pre = [] \<or> last pre = CHR ''/''"
      "test_word_here post"
      by blast
    from p(1,2) have "takeWhile (\<lambda>x. x \<noteq> CHR ''/'') post \<in> set (split CHR ''/'' s)"
      unfolding in_split by blast
    moreover from p(3) have "test_segment (takeWhile (\<lambda>x. x \<noteq> CHR ''/'') post)"
      by (simp only: test_word_here_segment)
    ultimately show "\<exists>seg\<in>set (split CHR ''/'' s). test_segment seg" by (rule bexI [rotated])
  next
    assume "\<exists>seg\<in>set (split CHR ''/'' s). test_segment seg"
    then obtain seg where seg: "seg \<in> set (split CHR ''/'' s)" "test_segment seg" by blast
    from seg(1) obtain pre post where p: "s = pre @ post" "pre = [] \<or> last pre = CHR ''/''"
      "seg = takeWhile (\<lambda>x. x \<noteq> CHR ''/'') post"
      unfolding in_split by blast
    from seg(2) p(3) have "test_word_here post"
      by (simp only: test_word_here_segment)
    with p(1,2) show "\<exists>pre post. s = pre @ post \<and> (pre = [] \<or> last pre = CHR ''/'') \<and> test_word_here post"
      by blast
  qed
  finally show ?thesis unfolding test_indicator_def .
qed


subsection \<open>Evaluation on given inputs\<close>


text \<open>Rules that evaluate the regular expressions of the source on a given file name.\<close>

lemmas regex_eval =
  matches_some_def patterns_def re_auth_def re_db_def re_ci_def re_lock_def
  re_code_def re_tests_def re_test_def is_word_char_def Let_def canonicalize_table

lemma analyze_risk_named:
  assumes "\<forall>f\<in>set files. filename f \<noteq> None"
  shows "\<exists>r. analyze files = Inr r
     \<and> risk r = risk_of (int (length files)) (churn_of files) (map stat_of files)
     \<and> totalFiles (metrics r) = int (length files) \<and> churn (metrics r) = churn_of files"
  by (simp add: analyze_named [OF assms] churn_of_def)



lemmas checks_eval =
  size_checks_def tests_check_def hasCodeTouched_def hasTestsTouched_def stat_of_def
  churn_of_def file_names_def


text \<open>Rules that evaluate \<^const>\<open>parsePrUrl\<close> on a given URL.\<close>


lemmas parse_eval =
  parsePrUrl_def or_string_def trim_def is_space_def re_match_def re_pr_url_def is_digit_def
  to_number_def canonicalize_table


subsection \<open>The seven checks as flags\<close>


lemma subseq_opt: "subseq xs ys \<Longrightarrow> subseq ((if b then [x] else []) @ xs) (x # ys)"
  by (auto intro: subseq_drop_many [of _ _ "[x]", simplified])

lemma points_of_simps:
  "points_of ''Large PR: many files changed'' = 2"
  "points_of ''Large PR: high churn (additions + deletions)'' = 2"
  "points_of ''Touches auth/security related code'' = 3"
  "points_of ''Touches database/migrations/schema'' = 3"
  "points_of ''Touches CI/infra config'' = 2"
  "points_of ''Touches dependency lockfiles'' = 2"
  "points_of ''Code changed but tests were not updated'' = 2"
  by (simp_all add: points_of_def reason_points_def)

lemma risk_flags:
  assumes "\<forall>f\<in>set files. filename f \<noteq> None"
  shows "\<exists>b1 b2 b3 b4 b5 b6 b7.
     reasons (risk_of n ch (map stat_of files)) =
       (if b1 then [''Large PR: many files changed''] else [])
       @ (if b2 then [''Large PR: high churn (additions + deletions)''] else [])
       @ (if b3 then [''Touches auth/security related code''] else [])
       @ (if b4 then [''Touches database/migrations/schema''] else [])
       @ (if b5 then [''Touches CI/infra config''] else [])
       @ (if b6 then [''Touches dependency lockfiles''] else [])
       @ (if b7 then [''Code changed but tests were not updated''] else []) @ []
     \<and> score (risk_of n ch (map stat_of files)) =
       (if b1 then 2 else 0) + (if b2 then 2 else 0) + (if b3 then 3 else 0)
       + (if b4 then 3 else 0) + (if b5 then 2 else 0) + (if b6 then 2 else 0)
       + (if b7 then 2 else 0)"
  unfolding risk_of_named(1,2) [OF assms]
  apply (rule exI [of _ "25 \<le> n"])
  apply (rule exI [of _ "800 \<le> ch"])
  apply (rule exI [of _ "matches_some re_auth (file_names files)"])
  apply (rule exI [of _ "matches_some re_db (file_names files)"])
  apply (rule exI [of _ "matches_some re_ci (file_names files)"])
  apply (rule exI [of _ "matches_some re_lock (file_names files)"])
  apply (rule exI [of _ "matches_some re_code (file_names files)
                          \<and> \<not> matches_some re_tests (file_names files)"])
  apply (simp add: patterns_def)
  done


subsection \<open>The check of the tests\<close>


lemma matches_some_code: "matches_some re_code ns \<longleftrightarrow> (\<exists>n\<in>set ns. code_extension n)"
  by (simp add: matches_some_def re_test_re_code)

lemma matches_some_tests: "matches_some re_tests ns \<longleftrightarrow> (\<exists>n\<in>set ns. test_indicator n)"
  by (simp add: matches_some_def re_test_re_tests)

text \<open>The score and the reasons right before the check of the tests (line 95).\<close>

lemma risk_of_before_tests:
  fixes n ch :: int
  assumes "\<forall>f\<in>set files. filename f \<noteq> None"
  defines "ns \<equiv> file_names files"
  defines "untested \<equiv> (\<exists>n\<in>set ns. code_extension n) \<and> \<not> (\<exists>n\<in>set ns. test_indicator n)"
  defines "before \<equiv> pattern_loop patterns (join ''\<newline>'' ns) (size_checks n ch)"
  shows "score (risk_of n ch (map stat_of files)) = fst before + (if untested then 2 else 0)"
    and "reasons (risk_of n ch (map stat_of files)) =
           snd before @ (if untested then [''Code changed but tests were not updated''] else [])"
    and "''Code changed but tests were not updated'' \<notin> set (snd before)"
proof -
  note j = joined_named [OF assms(1)]
  note c = hasCodeTouched_named [OF assms(1)] hasTestsTouched_named [OF assms(1)]
  show "score (risk_of n ch (map stat_of files)) = fst before + (if untested then 2 else 0)"
    unfolding risk_of_def Let_def j c tests_check_eq before_def untested_def ns_def
      matches_some_code matches_some_tests
    by simp
  show "reasons (risk_of n ch (map stat_of files)) =
           snd before @ (if untested then [''Code changed but tests were not updated''] else [])"
    unfolding risk_of_def Let_def j c tests_check_eq before_def untested_def ns_def
      matches_some_code matches_some_tests
    by simp
  show "''Code changed but tests were not updated'' \<notin> set (snd before)"
    unfolding before_def pattern_loop_eq size_checks_eq
    by (simp add: patterns_def)
qed



subsection \<open>Inserting a record\<close>


lemma file_names_insert:
  "file_names (g # ys) = the (filename g) # file_names ys"
  "file_names (xs @ ys) = file_names xs @ file_names ys"
  by (simp_all add: file_names_def)

lemma churn_of_insert:
  "churn_of (xs @ g # ys) = churn_of (xs @ ys) + or_zero (additions g) + or_zero (deletions g)"
  by (simp add: churn_of_def)

lemma matches_some_insert:
  "matches_some r (file_names (xs @ ys)) \<Longrightarrow> matches_some r (file_names (xs @ g # ys))"
  by (auto simp: matches_some_def file_names_insert)

lemma pattern_points_mono:
  assumes "\<And>p. p \<in> set ps \<Longrightarrow> 0 \<le> pts p" "\<And>p. p \<in> set ps \<Longrightarrow> f p \<Longrightarrow> g p"
  shows "sum_list (map (\<lambda>p. if f p then pts p else 0) ps)
       \<le> sum_list (map (\<lambda>p. if g p then pts p else 0) ps)"
  using assms
proof (induction ps)
  case Nil
  show ?case by simp
next
  case (Cons p ps)
  have "(if f p then pts p else 0) \<le> (if g p then pts p else 0)"
    using Cons.prems(1) [of p] Cons.prems(2) [of p] by auto
  moreover have "sum_list (map (\<lambda>p. if f p then pts p else 0) ps)
       \<le> sum_list (map (\<lambda>p. if g p then pts p else 0) ps)"
    using Cons by simp
  ultimately show ?case by simp
qed

lemma patterns_points_nonneg: "p \<in> set patterns \<Longrightarrow> 0 \<le> pts p"
  by (auto simp: patterns_def)


subsection \<open>Sorting, and the map of directories\<close>


lemma insert_by_insort_key:
  fixes key :: "'a \<Rightarrow> int"
  shows "insert_by (\<lambda>a b. key b - key a) x ys = insort_key (\<lambda>a. - key a) x ys"
  by (induction ys) simp_all

lemma sort_by_sort_key:
  fixes key :: "'a \<Rightarrow> int"
  shows "sort_by (\<lambda>a b. key b - key a) xs = sort_key (\<lambda>a. - key a) xs"
  by (induction xs) (simp_all add: sort_by_def insert_by_insort_key)

lemma insort_key_lex:
  fixes f :: "'a \<Rightarrow> int"
  assumes "sorted_wrt (\<lambda>a b. f a < f b \<or> (f a = f b \<and> R a b)) ys" "\<forall>y\<in>set ys. R x y"
  shows "sorted_wrt (\<lambda>a b. f a < f b \<or> (f a = f b \<and> R a b)) (insort_key f x ys)"
  using assms
proof (induction ys)
  case Nil
  show ?case by simp
next
  case (Cons y ys)
  show ?case
  proof (cases "f x \<le> f y")
    case True
    have "f x < f z \<or> (f x = f z \<and> R x z)" if "z \<in> set (y # ys)" for z
    proof -
      from that Cons.prems(1) have "f y \<le> f z" by auto
      with True have "f x \<le> f z" by simp
      moreover from that Cons.prems(2) have "R x z" by auto
      ultimately show ?thesis by auto
    qed
    with True Cons.prems(1) show ?thesis by simp
  next
    case False
    then have "f y < f x" by simp
    moreover from Cons have "sorted_wrt (\<lambda>a b. f a < f b \<or> (f a = f b \<and> R a b)) (insort_key f x ys)"
      by simp
    ultimately show ?thesis using False Cons.prems(1) by (auto simp: set_insort_key)
  qed
qed

lemma sort_key_lex:
  fixes f :: "'a \<Rightarrow> int"
  assumes "sorted_wrt R xs"
  shows "sorted_wrt (\<lambda>a b. f a < f b \<or> (f a = f b \<and> R a b)) (sort_key f xs)"
  using assms
proof (induction xs)
  case Nil
  show ?case by simp
next
  case (Cons x xs)
  then have "sorted_wrt (\<lambda>a b. f a < f b \<or> (f a = f b \<and> R a b)) (sort_key f xs)"
    "\<forall>y\<in>set (sort_key f xs). R x y"
    by simp_all
  then have "sorted_wrt (\<lambda>a b. f a < f b \<or> (f a = f b \<and> R a b)) (insort_key f x (sort_key f xs))"
    by (rule insort_key_lex)
  then show ?case by (simp add: sort_key_def)
qed

lemma filter_take_prefix: "prefix (filter P (take n xs)) (filter P xs)"
proof -
  have "filter P xs = filter P (take n xs) @ filter P (drop n xs)"
    by (metis append_take_drop_id filter_append)
  then show ?thesis by (simp add: prefix_def)
qed

text \<open>First occurrences.\<close>

lemma set_first_occurrences [simp]: "set (first_occurrences ks) = set ks"
  by (induction ks) auto

lemma distinct_first_occurrences [simp]: "distinct (first_occurrences ks)"
  by (induction ks) auto

lemma first_index_Cons:
  "first_index a (k # ks) = (if a = k then 0 else Suc (first_index a ks))"
  by (simp add: first_index_def)

lemma sorted_first_occurrences:
  "sorted_wrt (\<lambda>a b. first_index a ks < first_index b ks) (first_occurrences ks)"
proof (induction ks)
  case Nil
  show ?case by simp
next
  case (Cons k ks)
  have "sorted_wrt (\<lambda>a b. first_index a (k # ks) < first_index b (k # ks))
          (filter (\<lambda>x. x \<noteq> k) (first_occurrences ks))"
  proof (rule sorted_wrt_mono_rel [OF _ sorted_wrt_filter [OF Cons.IH]])
    fix a b
    assume "a \<in> set (filter (\<lambda>x. x \<noteq> k) (first_occurrences ks))"
      "b \<in> set (filter (\<lambda>x. x \<noteq> k) (first_occurrences ks))"
      "first_index a ks < first_index b ks"
    then show "first_index a (k # ks) < first_index b (k # ks)"
      by (simp add: first_index_Cons)
  qed
  then show ?case by (simp add: first_index_Cons)
qed

text \<open>The keys and the values of the map of directories.\<close>

lemma map_get_map_of: "map_get m k = map_of m k"
  by (induction m) auto

lemma keys_map_set:
  "map fst (map_set m k v) = (if k \<in> set (map fst m) then map fst m else map fst m @ [k])"
  by (induction m) (auto, force)

lemma set_keys_map_set: "set (map fst (map_set m k v)) = insert k (set (map fst m))"
  unfolding keys_map_set by auto

lemma map_of_map_set: "map_of (map_set m k v) = (map_of m)(k \<mapsto> v)"
  by (induction m) auto

lemma keys_dir_fold:
  "length cs = length ks \<Longrightarrow>
   map fst (dir_fold ks cs m)
     = map fst m @ filter (\<lambda>k. k \<notin> set (map fst m)) (first_occurrences ks)"
proof (induction ks cs m rule: dir_fold.induct)
  case (1 cs m)
  show ?case by simp
next
  case (2 k ks m)
  then show ?case by simp
next
  case (3 k ks c cs m)
  let ?m = "map_set m k (or_zero (map_get m k) + c)"
  from 3 have IH: "map fst (dir_fold ks cs ?m)
     = map fst ?m @ filter (\<lambda>x. x \<notin> set (map fst ?m)) (first_occurrences ks)"
    by simp
  have step: "map fst (dir_fold (k # ks) (c # cs) m)
     = map fst ?m @ filter (\<lambda>x. x \<notin> insert k (set (map fst m))) (first_occurrences ks)"
    unfolding dir_fold.simps IH set_keys_map_set ..
  show ?case
  proof (cases "k \<in> set (map fst m)")
    case True
    then have "filter (\<lambda>x. x \<notin> insert k (set (map fst m))) (first_occurrences ks)
             = filter (\<lambda>x. x \<notin> set (map fst m)) (filter (\<lambda>x. x \<noteq> k) (first_occurrences ks))"
      by (auto intro: filter_cong)
    with True show ?thesis
      unfolding step keys_map_set by simp
  next
    case False
    have "filter (\<lambda>x. x \<notin> insert k (set (map fst m))) (first_occurrences ks)
        = filter (\<lambda>x. x \<notin> set (map fst m)) (filter (\<lambda>x. x \<noteq> k) (first_occurrences ks))"
      by (auto intro: filter_cong)
    with False show ?thesis
      unfolding step keys_map_set by simp
  qed
qed

lemma map_of_dir_fold:
  "length cs = length ks \<Longrightarrow>
   map_of (dir_fold ks cs m) k
     = (if k \<in> set ks \<or> map_of m k \<noteq> None
        then Some (or_zero (map_of m k) + sum_list (map snd (filter (\<lambda>p. fst p = k) (zip ks cs))))
        else None)"
proof (induction ks cs m rule: dir_fold.induct)
  case (1 cs m)
  show ?case by (cases "map_of m k") simp_all
next
  case (2 k' ks m)
  then show ?case by simp
next
  case (3 k' ks c cs m)
  let ?m = "map_set m k' (or_zero (map_get m k') + c)"
  from 3 have IH: "map_of (dir_fold ks cs ?m) k
     = (if k \<in> set ks \<or> map_of ?m k \<noteq> None
        then Some (or_zero (map_of ?m k) + sum_list (map snd (filter (\<lambda>p. fst p = k) (zip ks cs))))
        else None)"
    by simp
  have "map_of (dir_fold (k' # ks) (c # cs) m) k
     = (if k \<in> set ks \<or> map_of ?m k \<noteq> None
        then Some (or_zero (map_of ?m k) + sum_list (map snd (filter (\<lambda>p. fst p = k) (zip ks cs))))
        else None)"
    unfolding dir_fold.simps by (rule IH)
  also have "\<dots> = (if k \<in> set (k' # ks) \<or> map_of m k \<noteq> None
        then Some (or_zero (map_of m k)
                   + sum_list (map snd (filter (\<lambda>p. fst p = k) (zip (k' # ks) (c # cs)))))
        else None)"
    unfolding map_of_map_set map_get_map_of
    by (cases "map_of m k") (auto simp: or_zero_eq)
  finally show ?case .
qed



lemma sum_by_key:
  "sum_list (map snd (filter (\<lambda>p. fst p = k) (zip (map key xs) (map val xs))))
     = sum_list (map val (filter (\<lambda>x. key x = k) xs))"
  by (induction xs) simp_all

lemma dir_map_entries:
  fixes files :: "file_change list"
  defines "keys \<equiv> map dir_key (file_names files)"
  defines "E \<equiv> dir_fold keys (map (\<lambda>f. or_zero (changes f)) files) []"
  shows "map fst E = first_occurrences keys"
    and "sorted_wrt (\<lambda>a b. first_index (fst a) keys < first_index (fst b) keys) E"
    and "(k, c) \<in> set E \<Longrightarrow>
           c = (\<Sum>f\<leftarrow>filter (\<lambda>f. dir_key (the (filename f)) = k) files.
                  case changes f of None \<Rightarrow> 0 | Some n \<Rightarrow> n)"
proof -
  have len: "length (map (\<lambda>f. or_zero (changes f)) files) = length keys"
    by (simp add: keys_def file_names_def)
  show keys: "map fst E = first_occurrences keys"
    unfolding E_def keys_dir_fold [OF len] by simp
  have "sorted_wrt (\<lambda>a b. first_index a keys < first_index b keys) (map fst E)"
    unfolding keys by (rule sorted_first_occurrences)
  then show "sorted_wrt (\<lambda>a b. first_index (fst a) keys < first_index (fst b) keys) E"
    by (simp add: sorted_wrt_map)
  assume kc: "(k, c) \<in> set E"
  have "distinct (map fst E)" unfolding keys by simp
  with kc have "map_of E k = Some c" by simp
  moreover have "keys = map (\<lambda>f. dir_key (the (filename f))) files"
    by (simp add: keys_def file_names_def)
  ultimately have "c = sum_list (map (\<lambda>f. or_zero (changes f))
                         (filter (\<lambda>f. dir_key (the (filename f)) = k) files))"
    unfolding E_def map_of_dir_fold [OF len]
    by (simp add: sum_by_key split: if_splits)
  then show "c = (\<Sum>f\<leftarrow>filter (\<lambda>f. dir_key (the (filename f)) = k) files.
                  case changes f of None \<Rightarrow> 0 | Some n \<Rightarrow> n)"
    by (simp add: or_zero_eq)
qed

section \<open>Properties of the specification\<close>



text \<open>C2: the level is high from 6 points on, medium from 3 to 5, low below 3.\<close>

theorem analyze_level:
  assumes "\<forall>f\<in>set files. filename f \<noteq> None"
  shows "\<exists>r. analyze files = Inr r
     \<and> (level (risk r) = ''high'' \<longleftrightarrow> 6 \<le> score (risk r))
     \<and> (level (risk r) = ''medium'' \<longleftrightarrow> 3 \<le> score (risk r) \<and> score (risk r) < 6)
     \<and> (level (risk r) = ''low'' \<longleftrightarrow> score (risk r) < 3)
     \<and> (score (risk r) = 2 \<longrightarrow> level (risk r) = ''low'')
     \<and> (score (risk r) = 3 \<longrightarrow> level (risk r) = ''medium'')
     \<and> (score (risk r) = 5 \<longrightarrow> level (risk r) = ''medium'')
     \<and> (score (risk r) = 6 \<longrightarrow> level (risk r) = ''high'')"
proof -
  from analyze_risk_named [OF assms] obtain r where r: "analyze files = Inr r"
    "risk r = risk_of (int (length files)) (churn_of files) (map stat_of files)"
    by blast
  have "level (risk r) = level_of (score (risk r))"
    unfolding r(2) by (rule risk_of_named(3) [OF assms])
  then show ?thesis using r(1) by (auto simp: level_of_def)
qed

theorem analyze_level_witness:
  "risk_score [\<lparr>filename = Some ''jwt.ts'', additions = Some 1, deletions = Some 1,
                changes = Some 2, status = Some ''added''\<rparr>] = Some 5
   \<and> risk_level [\<lparr>filename = Some ''jwt.ts'', additions = Some 1, deletions = Some 1,
                changes = Some 2, status = Some ''added''\<rparr>] = Some ''medium''"
proof -
  let ?X = "[\<lparr>filename = Some ''jwt.ts'', additions = Some 1, deletions = Some 1,
                changes = Some 2, status = Some ''added''\<rparr>]"
  have h: "\<forall>f\<in>set ?X. filename f \<noteq> None" by simp
  from analyze_risk_named [OF h] obtain r where r: "analyze ?X = Inr r"
    "risk r = risk_of (int (length ?X)) (churn_of ?X) (map stat_of ?X)"
    by blast
  have "score (risk r) = 5"
    unfolding r(2) risk_of_named(1) [OF h]
    by (simp add: file_names_def churn_of_def regex_eval)
  moreover from analyze_level [OF h] r(1)
  have "score (risk r) = 5 \<longrightarrow> level (risk r) = ''medium''" by auto
  ultimately show ?thesis using r(1) by (simp add: risk_score_def risk_level_def)
qed

text \<open>
  C3: a file in the root directory. The directory key of \<^verbatim>\<open>README.md\<close> is the file
  name itself, not the sentinel.
\<close>

theorem root_file_hotspot:
  "hotspot_list [\<lparr>filename = Some ''README.md'', additions = Some 3, deletions = Some 2,
                  changes = Some 5, status = Some ''modified''\<rparr>]
     = Some [\<lparr>dir = ''README.md'', h_churn = 5\<rparr>]"
proof -
  let ?X = "[\<lparr>filename = Some ''README.md'', additions = Some 3, deletions = Some 2,
                  changes = Some 5, status = Some ''modified''\<rparr>]"
  have h: "\<forall>f\<in>set ?X. filename f \<noteq> None" by simp
  show ?thesis
    unfolding hotspot_list_def analyze_named [OF h]
    by (simp add: file_names_def dir_key_def slice0_def or_string_def sort_by_def)
qed

text \<open>
  C4 (amended): inserting a record with non-negative additions and deletions anywhere
  into an input does not lower the score, provided the file name of the record does not
  match the test indicator or the report of the original input does not have the reason
  "Code changed but tests were not updated".
\<close>

theorem score_monotone:
  assumes named: "\<forall>f\<in>set (xs @ g # ys). filename f \<noteq> None"
    and adds: "0 \<le> (case additions g of None \<Rightarrow> 0 | Some n \<Rightarrow> n)"
    and dels: "0 \<le> (case deletions g of None \<Rightarrow> 0 | Some n \<Rightarrow> n)"
    and tests: "\<not> test_indicator (the (filename g))
                \<or> (\<exists>rs. risk_reasons (xs @ ys) = Some rs
                      \<and> ''Code changed but tests were not updated'' \<notin> set rs)"
  shows "\<exists>r r'. analyze (xs @ ys) = Inr r \<and> analyze (xs @ g # ys) = Inr r'
           \<and> score (risk r) \<le> score (risk r')"
proof -
  from named have named0: "\<forall>f\<in>set (xs @ ys). filename f \<noteq> None" by auto
  from analyze_risk_named [OF named0] obtain r where r: "analyze (xs @ ys) = Inr r"
    "risk r = risk_of (int (length (xs @ ys))) (churn_of (xs @ ys)) (map stat_of (xs @ ys))"
    by blast
  from analyze_risk_named [OF named] obtain r' where r': "analyze (xs @ g # ys) = Inr r'"
    "risk r' = risk_of (int (length (xs @ g # ys))) (churn_of (xs @ g # ys))
                 (map stat_of (xs @ g # ys))"
    by blast
  define ns where "ns = file_names (xs @ ys)"
  define ns' where "ns' = file_names (xs @ g # ys)"
  define u where "u \<longleftrightarrow> matches_some re_code ns \<and> \<not> matches_some re_tests ns"
  define u' where "u' \<longleftrightarrow> matches_some re_code ns' \<and> \<not> matches_some re_tests ns'"
  have sc: "score (risk r) =
           (if 25 \<le> int (length (xs @ ys)) then 2 else 0)
           + (if 800 \<le> churn_of (xs @ ys) then 2 else 0)
           + sum_list (map (\<lambda>p. if matches_some (re p) ns then pts p else 0) patterns)
           + (if u then 2 else 0)"
    unfolding r(2) ns_def u_def by (rule risk_of_named(1) [OF named0])
  have sc': "score (risk r') =
           (if 25 \<le> int (length (xs @ g # ys)) then 2 else 0)
           + (if 800 \<le> churn_of (xs @ g # ys) then 2 else 0)
           + sum_list (map (\<lambda>p. if matches_some (re p) ns' then pts p else 0) patterns)
           + (if u' then 2 else 0)"
    unfolding r'(2) ns'_def u'_def by (rule risk_of_named(1) [OF named])
  have 1: "(if 25 \<le> int (length (xs @ ys)) then 2 else 0)
         \<le> (if 25 \<le> int (length (xs @ g # ys)) then 2 else (0::int))"
    by simp
  have "churn_of (xs @ ys) \<le> churn_of (xs @ g # ys)"
    using adds dels by (simp add: churn_of_insert or_zero_eq)
  then have 2: "(if 800 \<le> churn_of (xs @ ys) then 2 else 0)
         \<le> (if 800 \<le> churn_of (xs @ g # ys) then 2 else (0::int))"
    by simp
  have 3: "sum_list (map (\<lambda>p. if matches_some (re p) ns then pts p else 0) patterns)
         \<le> sum_list (map (\<lambda>p. if matches_some (re p) ns' then pts p else 0) patterns)"
    unfolding ns_def ns'_def
    by (rule pattern_points_mono) (auto intro: patterns_points_nonneg matches_some_insert)
  have "u \<Longrightarrow> u'"
  proof -
    assume u
    then have code: "matches_some re_code ns'"
      unfolding u_def ns_def ns'_def by (auto intro: matches_some_insert)
    have rs: "reasons (risk r) =
        snd (pattern_loop patterns (join ''\<newline>'' (file_names (xs @ ys)))
               (size_checks (int (length (xs @ ys))) (churn_of (xs @ ys))))
        @ [''Code changed but tests were not updated'']"
      using \<open>u\<close> unfolding r(2) risk_of_before_tests(2) [OF named0] u_def ns_def
        matches_some_code matches_some_tests
      by simp
    have "risk_reasons (xs @ ys) = Some (reasons (risk r))"
      by (simp add: risk_reasons_def r(1))
    with rs tests have "\<not> test_indicator (the (filename g))" by auto
    with \<open>u\<close> have "\<not> matches_some re_tests ns'"
      unfolding u_def ns_def ns'_def matches_some_tests file_names_insert by auto
    with code show u' unfolding u'_def by simp
  qed
  then have 4: "(if u then 2 else 0) \<le> (if u' then 2 else (0::int))" by simp
  from 1 2 3 4 have "score (risk r) \<le> score (risk r')"
    unfolding sc sc' by linarith
  with r(1) r'(1) show ?thesis by blast
qed

theorem score_monotone_witness:
  "\<exists>r r'. analyze [\<lparr>filename = Some ''a.ts'', additions = Some 1, deletions = Some 1,
                     changes = Some 2, status = Some ''modified''\<rparr>] = Inr r
     \<and> analyze [\<lparr>filename = Some ''a.ts'', additions = Some 1, deletions = Some 1,
                   changes = Some 2, status = Some ''modified''\<rparr>,
                 \<lparr>filename = Some ''docs/jwt.md'', additions = Some 3, deletions = None,
                   changes = Some 3, status = Some ''added''\<rparr>] = Inr r'
     \<and> score (risk r) \<le> score (risk r')"
proof -
  let ?a = "\<lparr>filename = Some ''a.ts'', additions = Some 1, deletions = Some 1,
                     changes = Some 2, status = Some ''modified''\<rparr>"
  let ?g = "\<lparr>filename = Some ''docs/jwt.md'', additions = Some 3, deletions = None,
                   changes = Some 3, status = Some ''added''\<rparr>"
  have "\<not> test_indicator (the (filename ?g))"
    unfolding re_test_re_tests [symmetric] by (simp add: regex_eval)
  then have t: "\<not> test_indicator (the (filename ?g))
                \<or> (\<exists>rs. risk_reasons ([?a] @ []) = Some rs
                      \<and> ''Code changed but tests were not updated'' \<notin> set rs)"
    by (rule disjI1)
  have "\<exists>r r'. analyze ([?a] @ []) = Inr r \<and> analyze ([?a] @ ?g # []) = Inr r'
           \<and> score (risk r) \<le> score (risk r')"
    by (rule score_monotone [OF _ _ _ t]) simp_all
  then show ?thesis by simp
qed

text \<open>Adding the test file \<^verbatim>\<open>a.test.ts\<close> to \<^verbatim>\<open>a.ts\<close> lowers the score from 2 to 0.\<close>

theorem score_monotone_counterexample:
  "risk_score [\<lparr>filename = Some ''a.ts'', additions = Some 1, deletions = Some 1,
                 changes = Some 2, status = Some ''modified''\<rparr>] = Some 2
   \<and> risk_score [\<lparr>filename = Some ''a.ts'', additions = Some 1, deletions = Some 1,
                    changes = Some 2, status = Some ''modified''\<rparr>,
                  \<lparr>filename = Some ''a.test.ts'', additions = Some 5, deletions = Some 0,
                    changes = Some 5, status = Some ''added''\<rparr>] = Some 0"
proof -
  let ?X = "[\<lparr>filename = Some ''a.ts'', additions = Some 1, deletions = Some 1,
                 changes = Some 2, status = Some ''modified''\<rparr>]"
  let ?Y = "[\<lparr>filename = Some ''a.ts'', additions = Some 1, deletions = Some 1,
                    changes = Some 2, status = Some ''modified''\<rparr>,
                  \<lparr>filename = Some ''a.test.ts'', additions = Some 5, deletions = Some 0,
                    changes = Some 5, status = Some ''added''\<rparr>]"
  have hx: "\<forall>f\<in>set ?X. filename f \<noteq> None" and hy: "\<forall>f\<in>set ?Y. filename f \<noteq> None"
    by simp_all
  from analyze_risk_named [OF hx] obtain r where r: "analyze ?X = Inr r"
    "risk r = risk_of (int (length ?X)) (churn_of ?X) (map stat_of ?X)"
    by blast
  from analyze_risk_named [OF hy] obtain r' where r': "analyze ?Y = Inr r'"
    "risk r' = risk_of (int (length ?Y)) (churn_of ?Y) (map stat_of ?Y)"
    by blast
  have "score (risk r) = 2"
    unfolding r(2) risk_of_named(1) [OF hx]
    by (simp add: file_names_def churn_of_def regex_eval)
  moreover have "score (risk r') = 0"
    unfolding r'(2) risk_of_named(1) [OF hy]
    by (simp add: file_names_def churn_of_def regex_eval)
  ultimately show ?thesis using r(1) r'(1) by (simp add: risk_score_def)
qed

text \<open>
  C5 (amended): \<^const>\<open>analyze\<close> returns a report exactly for the inputs in which every
  record has a file name; missing numeric fields never make it fail.
\<close>

theorem analyze_returns_iff:
  "(\<exists>r. analyze files = Inr r) \<longleftrightarrow> (\<forall>f\<in>set files. filename f \<noteq> None)"
proof
  assume "\<exists>r. analyze files = Inr r"
  then obtain r where r: "analyze files = Inr r" ..
  show "\<forall>f\<in>set files. filename f \<noteq> None"
  proof (rule ccontr)
    assume "\<not> (\<forall>f\<in>set files. filename f \<noteq> None)"
    then have "\<exists>f\<in>set files. filename f = None" by simp
    from analyze_unnamed [OF this] r show False by simp
  qed
next
  assume "\<forall>f\<in>set files. filename f \<noteq> None"
  then show "\<exists>r. analyze files = Inr r"
    by (simp add: analyze_named)
qed

theorem analyze_returns_iff_witness:
  "\<exists>r. analyze [\<lparr>filename = Some ''notes.txt'', additions = None, deletions = None,
                  changes = None, status = None\<rparr>] = Inr r"
  using analyze_returns_iff [of "[\<lparr>filename = Some ''notes.txt'', additions = None,
                  deletions = None, changes = None, status = None\<rparr>]"]
  by simp

text \<open>A record without a file name makes \<^const>\<open>analyze\<close> throw.\<close>

theorem analyze_no_filename_counterexample:
  "analyze [\<lparr>filename = None, additions = Some 3, deletions = Some 1,
             changes = Some 4, status = Some ''modified''\<rparr>] = Inl TypeError"
  by (rule analyze_unnamed) simp

text \<open>
  C6: each of the four patterns adds its points and its reason exactly when its regular
  expression matches the file names joined by newlines, which is when it matches one of
  the file names; a pattern matches a string when the string contains one of its words,
  letter case ignored; the four contributions are independent of each other and come in
  the order of the table, after the size checks and before the check of the tests.
\<close>

theorem pattern_checks:
  assumes "\<forall>f\<in>set files. filename f \<noteq> None"
  shows "\<exists>r. analyze files = Inr r
     \<and> (\<forall>p\<in>set patterns. re_test (re p) (join ''\<newline>'' (file_names files))
                            \<longleftrightarrow> matches_some (re p) (file_names files))
     \<and> score (risk r) =
         fst (size_checks (int (length files)) (churn_of files))
         + (\<Sum>p\<leftarrow>patterns. if matches_some (re p) (file_names files) then pts p else 0)
         + fst (tests_check (map stat_of files) (0, []))
     \<and> reasons (risk r) =
         snd (size_checks (int (length files)) (churn_of files))
         @ concat (map (\<lambda>p. if matches_some (re p) (file_names files) then [reason p] else [])
                     patterns)
         @ snd (tests_check (map stat_of files) (0, []))
     \<and> map (\<lambda>p. (pts p, reason p)) patterns =
         [(3, ''Touches auth/security related code''),
          (3, ''Touches database/migrations/schema''),
          (2, ''Touches CI/infra config''),
          (2, ''Touches dependency lockfiles'')]
     \<and> list_all2 (\<lambda>p ws. \<forall>s. re_test (re p) s \<longleftrightarrow> (\<exists>w\<in>set ws. contains_ci w s))
           patterns pattern_words"
proof -
  from analyze_risk_named [OF assms] obtain r where r: "analyze files = Inr r"
    "risk r = risk_of (int (length files)) (churn_of files) (map stat_of files)"
    by blast
  have j: "\<forall>p\<in>set patterns. re_test (re p) (join ''\<newline>'' (file_names files))
                            \<longleftrightarrow> matches_some (re p) (file_names files)"
    using pattern_joined by blast
  have sc: "score (risk r) =
         fst (size_checks (int (length files)) (churn_of files))
         + (\<Sum>p\<leftarrow>patterns. if matches_some (re p) (file_names files) then pts p else 0)
         + fst (tests_check (map stat_of files) (0, []))"
    unfolding r(2) risk_of_named(1) [OF assms] size_checks_eq tests_check_eq
      hasCodeTouched_named [OF assms] hasTestsTouched_named [OF assms]
    by simp
  have rs: "reasons (risk r) =
         snd (size_checks (int (length files)) (churn_of files))
         @ concat (map (\<lambda>p. if matches_some (re p) (file_names files) then [reason p] else [])
                     patterns)
         @ snd (tests_check (map stat_of files) (0, []))"
    unfolding r(2) risk_of_named(2) [OF assms] size_checks_eq tests_check_eq
      hasCodeTouched_named [OF assms] hasTestsTouched_named [OF assms]
    by simp
  have tab: "map (\<lambda>p. (pts p, reason p)) patterns =
         [(3, ''Touches auth/security related code''),
          (3, ''Touches database/migrations/schema''),
          (2, ''Touches CI/infra config''),
          (2, ''Touches dependency lockfiles'')]"
    by (simp add: patterns_def)
  from r(1) j sc rs tab pattern_words_match show ?thesis
    by - (rule exI [of _ r], intro conjI, assumption+)
qed

theorem pattern_checks_witness:
  "\<exists>r. analyze [\<lparr>filename = Some ''src/Auth/login.ts'', additions = Some 50,
                  deletions = Some 10, changes = Some 60, status = Some ''modified''\<rparr>,
                 \<lparr>filename = Some ''db/schema.sql'', additions = Some 7,
                  deletions = None, changes = Some 7, status = Some ''added''\<rparr>] = Inr r
     \<and> score (risk r) = 8
     \<and> reasons (risk r) =
         [''Touches auth/security related code'', ''Touches database/migrations/schema'',
          ''Code changed but tests were not updated'']"
proof -
  let ?X = "[\<lparr>filename = Some ''src/Auth/login.ts'', additions = Some 50,
                  deletions = Some 10, changes = Some 60, status = Some ''modified''\<rparr>,
                 \<lparr>filename = Some ''db/schema.sql'', additions = Some 7,
                  deletions = None, changes = Some 7, status = Some ''added''\<rparr>]"
  have h: "\<forall>f\<in>set ?X. filename f \<noteq> None" by simp
  from pattern_checks [OF h] obtain r where r: "analyze ?X = Inr r"
    "score (risk r) =
         fst (size_checks (int (length ?X)) (churn_of ?X))
         + (\<Sum>p\<leftarrow>patterns. if matches_some (re p) (file_names ?X) then pts p else 0)
         + fst (tests_check (map stat_of ?X) (0, []))"
    "reasons (risk r) =
         snd (size_checks (int (length ?X)) (churn_of ?X))
         @ concat (map (\<lambda>p. if matches_some (re p) (file_names ?X) then [reason p] else [])
                     patterns)
         @ snd (tests_check (map stat_of ?X) (0, []))"
    by blast
  have "score (risk r) = 8"
    unfolding r(2) by (simp add: checks_eval regex_eval)
  moreover have "reasons (risk r) =
         [''Touches auth/security related code'', ''Touches database/migrations/schema'',
          ''Code changed but tests were not updated'']"
    unfolding r(3) by (simp add: checks_eval regex_eval)
  ultimately show ?thesis using r(1) by blast
qed

text \<open>
  C7 (amended): the check adds 2 points and appends its reason exactly when some file
  name ends, letter case ignored, with a dot and one of the ten extensions, and no file
  name has a path segment that begins, letter case ignored, with test, tests or
  __tests__ followed by the end of the segment or by a code unit that is not a word
  character, or contains .spec. or .test. (letter case ignored).
\<close>

theorem tests_check_rule:
  assumes "\<forall>f\<in>set files. filename f \<noteq> None"
  shows "\<exists>r. analyze files = Inr r
     \<and> (''Code changed but tests were not updated'' \<in> set (reasons (risk r))
          \<longleftrightarrow> (\<exists>n\<in>set (file_names files). code_extension n)
              \<and> \<not> (\<exists>n\<in>set (file_names files). test_indicator n))
     \<and> score (risk r) =
          fst (pattern_loop patterns (join ''\<newline>'' (file_names files))
                 (size_checks (int (length files)) (churn_of files)))
          + (if (\<exists>n\<in>set (file_names files). code_extension n)
                \<and> \<not> (\<exists>n\<in>set (file_names files). test_indicator n) then 2 else 0)
     \<and> reasons (risk r) =
          snd (pattern_loop patterns (join ''\<newline>'' (file_names files))
                 (size_checks (int (length files)) (churn_of files)))
          @ (if (\<exists>n\<in>set (file_names files). code_extension n)
                \<and> \<not> (\<exists>n\<in>set (file_names files). test_indicator n)
             then [''Code changed but tests were not updated''] else [])"
proof -
  from analyze_risk_named [OF assms] obtain r where r: "analyze files = Inr r"
    "risk r = risk_of (int (length files)) (churn_of files) (map stat_of files)"
    by blast
  note b = risk_of_before_tests [OF assms, of "int (length files)" "churn_of files"]
  have sc: "score (risk r) =
          fst (pattern_loop patterns (join ''\<newline>'' (file_names files))
                 (size_checks (int (length files)) (churn_of files)))
          + (if (\<exists>n\<in>set (file_names files). code_extension n)
                \<and> \<not> (\<exists>n\<in>set (file_names files). test_indicator n) then 2 else 0)"
    unfolding r(2) by (rule b(1))
  have rs: "reasons (risk r) =
          snd (pattern_loop patterns (join ''\<newline>'' (file_names files))
                 (size_checks (int (length files)) (churn_of files)))
          @ (if (\<exists>n\<in>set (file_names files). code_extension n)
                \<and> \<not> (\<exists>n\<in>set (file_names files). test_indicator n)
             then [''Code changed but tests were not updated''] else [])"
    unfolding r(2) by (rule b(2))
  have mem: "''Code changed but tests were not updated'' \<in> set (reasons (risk r))
          \<longleftrightarrow> (\<exists>n\<in>set (file_names files). code_extension n)
              \<and> \<not> (\<exists>n\<in>set (file_names files). test_indicator n)"
    unfolding rs using b(3) by simp
  from r(1) mem sc rs show ?thesis
    by - (rule exI [of _ r], intro conjI, assumption+)
qed

theorem tests_check_rule_witness:
  "\<exists>r. analyze [\<lparr>filename = Some ''src/App.TSX'', additions = Some 4, deletions = Some 1,
                  changes = Some 5, status = Some ''modified''\<rparr>,
                 \<lparr>filename = Some ''src/testing/notes.md'', additions = Some 1,
                  deletions = Some 0, changes = Some 1, status = Some ''added''\<rparr>] = Inr r
     \<and> ''Code changed but tests were not updated'' \<in> set (reasons (risk r))"
proof -
  let ?X = "[\<lparr>filename = Some ''src/App.TSX'', additions = Some 4, deletions = Some 1,
                  changes = Some 5, status = Some ''modified''\<rparr>,
                 \<lparr>filename = Some ''src/testing/notes.md'', additions = Some 1,
                  deletions = Some 0, changes = Some 1, status = Some ''added''\<rparr>]"
  have h: "\<forall>f\<in>set ?X. filename f \<noteq> None" by simp
  have c: "(\<exists>n\<in>set (file_names ?X). code_extension n)
              \<and> \<not> (\<exists>n\<in>set (file_names ?X). test_indicator n)"
    unfolding re_test_re_code [symmetric] re_test_re_tests [symmetric]
    by (simp add: file_names_def regex_eval)
  from tests_check_rule [OF h] c show ?thesis by blast
qed

text \<open>
  The file \<^verbatim>\<open>test.ts\<close> has a code extension and, in the words of the claim, no test
  indicator: no path segment is equal to a test word, and the name contains neither
  \<^verbatim>\<open>.spec.\<close> nor \<^verbatim>\<open>.test.\<close>. Yet the check adds nothing.
\<close>

theorem tests_check_counterexample:
  "spec_code_extension ''test.ts'' \<and> \<not> spec_test_indicator ''test.ts''
   \<and> risk_reasons [\<lparr>filename = Some ''test.ts'', additions = Some 9, deletions = Some 0,
                      changes = Some 9, status = Some ''added''\<rparr>] = Some []
   \<and> risk_score [\<lparr>filename = Some ''test.ts'', additions = Some 9, deletions = Some 0,
                      changes = Some 9, status = Some ''added''\<rparr>] = Some 0"
proof -
  let ?X = "[\<lparr>filename = Some ''test.ts'', additions = Some 9, deletions = Some 0,
                      changes = Some 9, status = Some ''added''\<rparr>]"
  have h: "\<forall>f\<in>set ?X. filename f \<noteq> None" by simp
  from analyze_risk_named [OF h] obtain r where r: "analyze ?X = Inr r"
    "risk r = risk_of (int (length ?X)) (churn_of ?X) (map stat_of ?X)"
    by blast
  have "score (risk r) = 0"
    unfolding r(2) risk_of_named(1) [OF h]
    by (simp add: file_names_def churn_of_def regex_eval)
  moreover have "reasons (risk r) = []"
    unfolding r(2) risk_of_named(2) [OF h]
    by (simp add: file_names_def churn_of_def regex_eval)
  moreover have "spec_code_extension ''test.ts''"
    by (simp add: spec_code_extension_def code_exts_def suffix_def)
  moreover have "\<not> spec_test_indicator ''test.ts''"
    by (simp add: spec_test_indicator_def test_words_def sublist_code)
  ultimately show ?thesis using r(1)
    by (simp add: risk_reasons_def risk_score_def)
qed

text \<open>
  C8: both lists have at most 8 entries. The biggest files are in descending order of
  changes, and the records with the same number of changes come in the order of the
  input. The hotspots are in descending order of churn, a directory's churn being the
  sum of the changes of its files, and directories with the same churn come in the
  order in which their keys first occur in the input; no directory occurs twice.
\<close>

theorem top_lists:
  assumes "\<forall>f\<in>set files. filename f \<noteq> None"
  shows "\<exists>r. analyze files = Inr r
     \<and> length (biggestFiles r) \<le> 8 \<and> length (hotspots r) \<le> 8
     \<and> sorted_wrt (\<lambda>a b. st_changes a \<ge> st_changes b) (biggestFiles r)
     \<and> (\<forall>c. prefix (filter (\<lambda>s. st_changes s = c) (biggestFiles r))
                    (filter (\<lambda>s. st_changes s = c) (map stat_of files)))
     \<and> sorted_wrt (\<lambda>a b. h_churn a > h_churn b
                      \<or> (h_churn a = h_churn b
                          \<and> first_index (dir a) (map dir_key (file_names files))
                            < first_index (dir b) (map dir_key (file_names files))))
          (hotspots r)
     \<and> distinct (map dir (hotspots r))
     \<and> (\<forall>h\<in>set (hotspots r).
           h_churn h = (\<Sum>f\<leftarrow>filter (\<lambda>f. dir_key (the (filename f)) = dir h) files.
                          case changes f of None \<Rightarrow> 0 | Some n \<Rightarrow> n))"
proof -
  define keys where "keys = map dir_key (file_names files)"
  define E where "E = dir_fold keys (map (\<lambda>f. or_zero (changes f)) files) []"
  define S where "S = sort_key (\<lambda>a. - snd a) E"
  define B where "B = sort_key (\<lambda>a. - st_changes a) (map stat_of files)"
  define mk where "mk = (\<lambda>(d, c). \<lparr>dir = d, h_churn = c\<rparr>)"
  note E = dir_map_entries [where files = files, folded keys_def, folded E_def]
  from analyze_named [OF assms] obtain r where r: "analyze files = Inr r"
    "hotspots r = map mk (take 8 S)" "biggestFiles r = take 8 B"
    by (simp add: slice0_def sort_by_sort_key S_def B_def E_def keys_def mk_def)
  have mk: "dir (mk p) = fst p" "h_churn (mk p) = snd p" for p
    by (cases p; simp add: mk_def)+
  have 1: "length (biggestFiles r) \<le> 8" "length (hotspots r) \<le> 8"
    by (simp_all add: r)
  have "sorted (map (\<lambda>a. - st_changes a) B)"
    unfolding B_def by (rule sorted_sort_key)
  then have "sorted_wrt (\<lambda>a b. st_changes a \<ge> st_changes b) B"
    by (simp add: sorted_map)
  then have 2: "sorted_wrt (\<lambda>a b. st_changes a \<ge> st_changes b) (biggestFiles r)"
    unfolding r by (rule sorted_wrt_take)
  have 3: "prefix (filter (\<lambda>s. st_changes s = c) (biggestFiles r))
                    (filter (\<lambda>s. st_changes s = c) (map stat_of files))" for c
  proof -
    have "filter (\<lambda>s. - st_changes s = - c) B = filter (\<lambda>s. - st_changes s = - c) (map stat_of files)"
      unfolding B_def by (rule sort_key_stable)
    then have "filter (\<lambda>s. st_changes s = c) B = filter (\<lambda>s. st_changes s = c) (map stat_of files)"
      by simp
    with filter_take_prefix [of "\<lambda>s. st_changes s = c" 8 B] show ?thesis
      by (simp add: r)
  qed
  have "sorted_wrt (\<lambda>a b. - snd a < - snd b
                      \<or> (- snd a = - snd b
                          \<and> first_index (fst a) keys < first_index (fst b) keys)) S"
    unfolding S_def
    using sort_key_lex [where f = "\<lambda>a. - snd a" and xs = E
        and R = "\<lambda>a b. first_index (fst a) keys < first_index (fst b) keys", OF E(2)]
    by simp
  then have "sorted_wrt (\<lambda>a b. - snd a < - snd b
                      \<or> (- snd a = - snd b
                          \<and> first_index (fst a) keys < first_index (fst b) keys)) (take 8 S)"
    by (rule sorted_wrt_take)
  then have 4: "sorted_wrt (\<lambda>a b. h_churn a > h_churn b
                      \<or> (h_churn a = h_churn b
                          \<and> first_index (dir a) keys < first_index (dir b) keys))
          (hotspots r)"
    by (simp add: r sorted_wrt_map mk)
  have "distinct (map fst E)" unfolding E(1) by simp
  then have "distinct (map fst S)"
    unfolding S_def by (simp add: distinct_map)
  then have "distinct (take 8 (map fst S))" by (rule distinct_take)
  then have 5: "distinct (map dir (hotspots r))"
    by (simp add: r take_map comp_def mk)
  have 6: "h_churn h = (\<Sum>f\<leftarrow>filter (\<lambda>f. dir_key (the (filename f)) = dir h) files.
                          case changes f of None \<Rightarrow> 0 | Some n \<Rightarrow> n)"
    if "h \<in> set (hotspots r)" for h
  proof -
    from that obtain p where p: "p \<in> set (take 8 S)" "h = mk p" by (auto simp: r)
    from p(1) have "p \<in> set S" by (rule in_set_takeD)
    then have "(fst p, snd p) \<in> set E" by (simp add: S_def)
    from E(3) [OF this] show ?thesis by (simp add: p(2) mk)
  qed
  from r(1) 1 2 3 4 5 6 show ?thesis
    unfolding keys_def by blast
qed


theorem top_lists_witness:
  "\<exists>r. analyze tied_pr = Inr r
     \<and> map dir (hotspots r) = [''src/a'', ''lib/b'', ''docs/readme.md'']
     \<and> map h_churn (hotspots r) = [5, 5, 5]
     \<and> map st_filename (biggestFiles r)
         = [Some ''lib/b/two.ts'', Some ''docs/readme.md'', Some ''src/a/one.ts'',
            Some ''src/a/three.ts'']
     \<and> sorted_wrt (\<lambda>a b. st_changes a \<ge> st_changes b) (biggestFiles r)
     \<and> sorted_wrt (\<lambda>a b. h_churn a > h_churn b
                      \<or> (h_churn a = h_churn b
                          \<and> first_index (dir a) (map dir_key (file_names tied_pr))
                            < first_index (dir b) (map dir_key (file_names tied_pr))))
          (hotspots r)"
proof -
  have h: "\<forall>f\<in>set tied_pr. filename f \<noteq> None"
    by (simp add: tied_pr_def)
  from top_lists [OF h] obtain r where r: "analyze tied_pr = Inr r"
    "sorted_wrt (\<lambda>a b. st_changes a \<ge> st_changes b) (biggestFiles r)"
    "sorted_wrt (\<lambda>a b. h_churn a > h_churn b
                      \<or> (h_churn a = h_churn b
                          \<and> first_index (dir a) (map dir_key (file_names tied_pr))
                            < first_index (dir b) (map dir_key (file_names tied_pr))))
          (hotspots r)"
    by blast
  have hs: "hotspots r = [\<lparr>dir = ''src/a'', h_churn = 5\<rparr>, \<lparr>dir = ''lib/b'', h_churn = 5\<rparr>,
                          \<lparr>dir = ''docs/readme.md'', h_churn = 5\<rparr>]"
    using r(1) unfolding analyze_named [OF h]
    by (auto simp: tied_pr_def file_names_def dir_key_def slice0_def or_string_def sort_by_def)
  have bf: "map st_filename (biggestFiles r)
         = [Some ''lib/b/two.ts'', Some ''docs/readme.md'', Some ''src/a/one.ts'',
            Some ''src/a/three.ts'']"
    using r(1) unfolding analyze_named [OF h]
    by (auto simp: tied_pr_def slice0_def sort_by_def stat_of_def)
  from r hs bf show ?thesis by simp
qed

text \<open>
  C9 (amended): the reasons are a subsequence of the seven canonical reasons in their
  order, none twice; the score is the sum of the points of the reasons present; and the
  score lies between 0 and 16.
\<close>

theorem score_from_reasons:
  assumes "\<forall>f\<in>set files. filename f \<noteq> None"
  shows "\<exists>r. analyze files = Inr r
     \<and> subseq (reasons (risk r)) (map fst reason_points)
     \<and> distinct (reasons (risk r))
     \<and> score (risk r) = sum_list (map points_of (reasons (risk r)))
     \<and> 0 \<le> score (risk r) \<and> score (risk r) \<le> 16"
proof -
  from analyze_risk_named [OF assms] obtain r where r: "analyze files = Inr r"
    "risk r = risk_of (int (length files)) (churn_of files) (map stat_of files)"
    by blast
  from risk_flags [OF assms, of "int (length files)" "churn_of files"]
  obtain b1 b2 b3 b4 b5 b6 b7 where
    rs: "reasons (risk r) =
       (if b1 then [''Large PR: many files changed''] else [])
       @ (if b2 then [''Large PR: high churn (additions + deletions)''] else [])
       @ (if b3 then [''Touches auth/security related code''] else [])
       @ (if b4 then [''Touches database/migrations/schema''] else [])
       @ (if b5 then [''Touches CI/infra config''] else [])
       @ (if b6 then [''Touches dependency lockfiles''] else [])
       @ (if b7 then [''Code changed but tests were not updated''] else []) @ []"
    and sc: "score (risk r) =
       (if b1 then 2 else 0) + (if b2 then 2 else 0) + (if b3 then 3 else 0)
       + (if b4 then 3 else 0) + (if b5 then 2 else 0) + (if b6 then 2 else 0)
       + (if b7 then 2 else 0)"
    unfolding r(2) by blast
  have sub: "subseq (reasons (risk r)) (map fst reason_points)"
    unfolding rs reason_points_def list.map fst_conv
    by (intro subseq_opt) simp
  have "distinct (map fst reason_points)"
    by (simp add: reason_points_def)
  with sub have dis: "distinct (reasons (risk r))"
    by (auto simp: subseq_conv_nths)
  have pts: "score (risk r) = sum_list (map points_of (reasons (risk r)))"
    unfolding rs sc by (simp add: points_of_simps)
  have "0 \<le> score (risk r)" "score (risk r) \<le> 16"
    unfolding sc by simp_all
  with r(1) sub dis pts show ?thesis by blast
qed

theorem score_from_reasons_witness:
  "\<exists>r. analyze big_pr = Inr r
     \<and> subseq (reasons (risk r)) (map fst reason_points)
     \<and> distinct (reasons (risk r))
     \<and> score (risk r) = sum_list (map points_of (reasons (risk r)))
     \<and> 0 \<le> score (risk r) \<and> score (risk r) \<le> 16"
proof -
  have "\<forall>f\<in>set big_pr. filename f \<noteq> None"
    by (simp add: big_pr_def)
  then show ?thesis by (rule score_from_reasons)
qed

text \<open>On the pull request \<^const>\<open>big_pr\<close> all seven checks fire: the score is 16.\<close>

theorem score_bound_counterexample: "risk_score big_pr = Some 16"
proof -
  have h: "\<forall>f\<in>set big_pr. filename f \<noteq> None"
    by (simp add: big_pr_def)
  from analyze_risk_named [OF h] obtain r where r: "analyze big_pr = Inr r"
    "risk r = risk_of (int (length big_pr)) (churn_of big_pr) (map stat_of big_pr)"
    by blast
  have n: "int (length big_pr) = 25" "churn_of big_pr = 800"
    by (simp_all add: big_pr_def churn_of_def)
  have ns: "file_names big_pr = ''jwt/db/ci/yarn.lock.go'' # map (\<lambda>c. [CHR ''f'', c]) ''abcdefghijklmnopqrstuvwx''"
    by (simp add: big_pr_def file_names_def)
  have hit: "re_test re_auth ''jwt/db/ci/yarn.lock.go''" "re_test re_db ''jwt/db/ci/yarn.lock.go''"
    "re_test re_ci ''jwt/db/ci/yarn.lock.go''" "re_test re_lock ''jwt/db/ci/yarn.lock.go''"
    "re_test re_code ''jwt/db/ci/yarn.lock.go''"
    by (simp_all add: regex_eval)
  have miss: "\<not> matches_some re_tests (file_names big_pr)"
    unfolding ns by (simp add: regex_eval)
  have "score (risk r) = 16"
    unfolding r(2) risk_of_named(1) [OF h] n
    using hit miss by (simp add: matches_some_def ns patterns_def)
  with r(1) show ?thesis by (simp add: risk_score_def)
qed

text \<open>
  C10 (amended): when the variable \<^verbatim>\<open>GITHUB_TOKEN\<close> is absent or empty and the request
  carries a URL that \<^const>\<open>parsePrUrl\<close> accepts, the handler answers with status 500 and
  the message "Missing GITHUB_TOKEN in .env.local", and makes no request to the API.
\<close>

theorem missing_token_response:
  assumes "parsePrUrl prUrl = Some parsed" and "token = None \<or> token = Some []"
  shows "POST gh render token (Body prUrl)
     = Some (\<lparr>http_status = 500,
              body = ErrorBody (Text ''Missing GITHUB_TOKEN in .env.local'')\<rparr>, [])"
  using assms by (auto simp: POST_def)

theorem missing_token_response_witness:
  "POST offline_github no_markdown None (Body (Some ''https://github.com/vercel/next.js/pull/1''))
     = Some (\<lparr>http_status = 500,
              body = ErrorBody (Text ''Missing GITHUB_TOKEN in .env.local'')\<rparr>, [])"
proof -
  have "parsePrUrl (Some ''https://github.com/vercel/next.js/pull/1'')
      = Some \<lparr>owner = Some ''vercel'', repo = Some ''next.js'', pull_number = Some 1\<rparr>"
    by (simp add: parse_eval)
  then show ?thesis by (rule missing_token_response) simp
qed

text \<open>
  Without a token the message is not "Missing token configuration"; and when the URL is
  not accepted the answer is 400, whatever the token.
\<close>

theorem missing_token_counterexample:
  "POST offline_github no_markdown None (Body (Some ''https://github.com/o/r/pull/7''))
     = Some (\<lparr>http_status = 500,
              body = ErrorBody (Text ''Missing GITHUB_TOKEN in .env.local'')\<rparr>, [])
   \<and> ErrorBody (Text ''Missing GITHUB_TOKEN in .env.local'')
       \<noteq> ErrorBody (Text ''Missing token configuration'')
   \<and> POST offline_github no_markdown None (Body (Some ''github.com/o/r''))
     = Some (\<lparr>http_status = 400, body = ErrorBody (Text ''Invalid GitHub PR URL'')\<rparr>, [])"
proof -
  have 1: "parsePrUrl (Some ''https://github.com/o/r/pull/7'')
      = Some \<lparr>owner = Some ''o'', repo = Some ''r'', pull_number = Some 7\<rparr>"
    by (simp add: parse_eval)
  have 2: "parsePrUrl (Some ''github.com/o/r'') = None"
    by (simp add: parse_eval)
  show ?thesis by (simp add: POST_def 1 2)
qed


end
